theory Spec2Isabelle
  imports Main "HOL-Library.Word"
begin

section \<open>Python values and strings\<close>

text \<open>
  A Python \<open>str\<close> is a sequence of Unicode code points; a literal of the source is written
  \<open>str ''...''\<close> when it is ASCII and as a list of code points otherwise.
\<close>

type_synonym ustr = "nat list"

abbreviation str :: "string \<Rightarrow> ustr" where
  "str s \<equiv> map of_char s"

text \<open>
  The values that reach the text functions: \<open>None\<close>, a float NaN (an empty spreadsheet
  cell), a \<open>str\<close>, or any other object, which is described by its truth value and by the
  text \<open>str()\<close> returns for it.
\<close>

datatype pyval = PNone | PNaN | PStr ustr | PObj bool ustr

fun py_str :: "pyval \<Rightarrow> ustr" where
  "py_str PNone = str ''None''"
| "py_str PNaN = str ''nan''"
| "py_str (PStr s) = s"
| "py_str (PObj b s) = s"

fun truthy :: "pyval \<Rightarrow> bool" where
  "truthy PNone = False"
| "truthy PNaN = True"
| "truthy (PStr s) = (s \<noteq> [])"
| "truthy (PObj b s) = b"

fun isna :: "pyval \<Rightarrow> bool" where
  "isna PNone = True"
| "isna PNaN = True"
| "isna (PStr s) = False"
| "isna (PObj b s) = False"

datatype error = AttributeError | KeyError | ValueError | UnicodeEncodeError

section \<open>The runtime the program relies on\<close>

text \<open>
  What the interpreter and its libraries decide, and the source does not: the Unicode
  character database beyond ASCII, the order in which a \<open>set\<close> yields its elements, and
  the dialect of the CSV writer. Every function below that depends on one of them takes the
  runtime as its first argument. On ASCII the Unicode functions are fixed by the
  definitions themselves.
  \<^item> \<open>tolower s i\<close>: the lower case of the non-ASCII character at position \<open>i\<close> of \<open>s\<close>, one
    or more characters (the position is given because the lower case of a capital sigma
    depends on its neighbours);
  \<^item> \<open>decomposition c\<close>: the full compatibility decomposition of the non-ASCII character
    \<open>c\<close>, the character itself when it has none;
  \<^item> \<open>combining_class c\<close>: its canonical combining class;
  \<^item> \<open>casefolding c\<close>: its full case folding;
  \<^item> \<open>set_iter xs\<close>: the elements of the set built from \<open>xs\<close>, in the order in which
    iterating that set yields them (for strings it changes with the hash seed of the
    process);
  \<^item> \<open>quote_field f\<close>: the field \<open>f\<close> as the CSV writer writes it, quoted when it has to
    be; \<open>lineterminator\<close>: what the writer ends a line with.
\<close>

record runtime =
  tolower :: "ustr \<Rightarrow> nat \<Rightarrow> ustr"
  decomposition :: "nat \<Rightarrow> ustr"
  combining_class :: "nat \<Rightarrow> nat"
  casefolding :: "nat \<Rightarrow> ustr"
  set_iter :: "ustr list \<Rightarrow> ustr list"
  quote_field :: "ustr \<Rightarrow> ustr"
  lineterminator :: ustr

subsection \<open>\<open>str.strip\<close>, \<open>str.lower\<close>, \<open>str.replace\<close>, \<open>in\<close>\<close>

text \<open>The code points for which \<open>str.isspace\<close> holds; \<open>\s\<close> of \<open>re\<close> matches the same ones.\<close>

definition isspace :: "nat \<Rightarrow> bool" where
  "isspace c \<longleftrightarrow>
     (9 \<le> c \<and> c \<le> 13) \<or> (28 \<le> c \<and> c \<le> 32) \<or> c = 0x85 \<or> c = 0xA0 \<or> c = 0x1680 \<or>
     (0x2000 \<le> c \<and> c \<le> 0x200A) \<or> c = 0x2028 \<or> c = 0x2029 \<or> c = 0x202F \<or>
     c = 0x205F \<or> c = 0x3000"

definition strip :: "ustr \<Rightarrow> ustr" where
  "strip s = rev (dropWhile isspace (rev (dropWhile isspace s)))"

definition ascii_lower :: "nat \<Rightarrow> nat" where
  "ascii_lower c = (if 0x41 \<le> c \<and> c \<le> 0x5A then c + 0x20 else c)"

fun lower_from :: "runtime \<Rightarrow> ustr \<Rightarrow> nat \<Rightarrow> ustr \<Rightarrow> ustr" where
  "lower_from rt s i [] = []"
| "lower_from rt s i (c # cs) =
     (if c < 0x80 then [ascii_lower c] else tolower rt s i) @ lower_from rt s (Suc i) cs"

definition lower :: "runtime \<Rightarrow> ustr \<Rightarrow> ustr" where
  "lower rt s = lower_from rt s 0 s"

text \<open>
  \<open>s.replace(old, new)\<close>: one pass from the left over non-overlapping occurrences; with an
  empty \<open>old\<close>, \<open>new\<close> is put before every character and at the end.
\<close>

fun replace :: "ustr \<Rightarrow> ustr \<Rightarrow> ustr \<Rightarrow> ustr" where
  "replace old new [] = (if old = [] then new else [])"
| "replace old new (c # cs) =
     (if old = [] then new @ c # replace old new cs
      else if take (length old) (c # cs) = old
           then new @ replace old new (drop (length old) (c # cs))
           else c # replace old new cs)"

text \<open>\<open>t in p\<close> on strings: \<open>t\<close> starts at some position of \<open>p\<close>.\<close>

fun contains :: "ustr \<Rightarrow> ustr \<Rightarrow> bool" where
  "contains [] t = (t = [])"
| "contains (c # cs) t = (take (length t) (c # cs) = t \<or> contains cs t)"

subsection \<open>\<open>unicodedata.normalize("NFKD", s)\<close>, \<open>unicodedata.combining\<close>, \<open>str.casefold\<close>\<close>

definition combining :: "runtime \<Rightarrow> nat \<Rightarrow> nat" where
  "combining rt c = (if c < 0x80 then 0 else combining_class rt c)"

definition decompose :: "runtime \<Rightarrow> nat \<Rightarrow> ustr" where
  "decompose rt c = (if c < 0x80 then [c] else decomposition rt c)"

text \<open>
  Canonical ordering: every maximal run of characters of non-zero combining class is
  sorted by class, characters of the same class keeping their order.
\<close>

fun canonical_order :: "runtime \<Rightarrow> ustr \<Rightarrow> ustr \<Rightarrow> ustr" where
  "canonical_order rt run [] = sort_key (combining rt) run"
| "canonical_order rt run (c # cs) =
     (if combining rt c = 0 then sort_key (combining rt) run @ c # canonical_order rt [] cs
      else canonical_order rt (run @ [c]) cs)"

definition nfkd :: "runtime \<Rightarrow> ustr \<Rightarrow> ustr" where
  "nfkd rt s = canonical_order rt [] (concat (map (decompose rt) s))"

definition casefold :: "runtime \<Rightarrow> ustr \<Rightarrow> ustr" where
  "casefold rt s = concat (map (\<lambda>c. if c < 0x80 then [ascii_lower c] else casefolding rt c) s)"

section \<open>The program: text normalisation, tokenising, matching\<close>

text \<open>
  \<^verbatim>\<open>
  def normalize_text(s):
      if not isinstance(s, str):
          s = str(s) if s is not None else ""
      s = s.strip()
      s = unicodedata.normalize("NFKD", s)
      s = "".join(ch for ch in s if not unicodedata.combining(ch))
      return s.casefold()
  \<close>
\<close>

fun coerce :: "pyval \<Rightarrow> ustr" where
  "coerce (PStr s) = s"
| "coerce PNone = []"
| "coerce v = py_str v"

definition normalize_text :: "runtime \<Rightarrow> pyval \<Rightarrow> ustr" where
  "normalize_text rt v =
     casefold rt (filter (\<lambda>ch. combining rt ch = 0) (nfkd rt (strip (coerce v))))"

text \<open>
  \<open>re.split(r"[\s,;\u200b]+", q)\<close>: the pieces between the maximal runs of separators,
  empty pieces at either end included. The flag says that the previous character was a
  separator.
\<close>

definition is_sep :: "nat \<Rightarrow> bool" where
  "is_sep c \<longleftrightarrow> isspace c \<or> c = 0x2C \<or> c = 0x3B \<or> c = 0x200B"

fun re_split :: "ustr \<Rightarrow> bool \<Rightarrow> ustr \<Rightarrow> ustr list" where
  "re_split piece insep [] = [piece]"
| "re_split piece insep (c # cs) =
     (if is_sep c then (if insep then re_split [] True cs else piece # re_split [] True cs)
      else re_split (piece @ [c]) False cs)"

definition tokenize_query :: "runtime \<Rightarrow> pyval \<Rightarrow> ustr list" where
  "tokenize_query rt q = filter (\<lambda>p. p \<noteq> []) (re_split [] False (normalize_text rt q))"

text \<open>
  \<^verbatim>\<open>
  def match_row(productos_text, terms):
      p = normalize_text(productos_text or "")
      return all(t in p for t in terms)
  \<close>
\<close>

definition match_row :: "runtime \<Rightarrow> pyval \<Rightarrow> ustr list \<Rightarrow> bool" where
  "match_row rt productos_text terms =
     (let p = normalize_text rt (if truthy productos_text then productos_text else PStr [])
      in list_all (\<lambda>t. contains p t) terms)"

section \<open>The program: column names\<close>

text \<open>
  A column label of a table: a \<open>str\<close>, or any other hashable object (a number, a
  timestamp), described by the text \<open>str()\<close> returns for it.
\<close>

datatype label = Name ustr | NonStr ustr

fun label_text :: "label \<Rightarrow> ustr" where
  "label_text (Name n) = n"
| "label_text (NonStr n) = n"

text \<open>
  \<^verbatim>\<open>
  def _normalize_col(col):
      if not isinstance(col, str):
          return ""
      c = col.strip().lower()
      c = c.replace("\u00e1", "a").replace("\u00e9", "e").replace("\u00ed", "i")
           .replace("\u00f3", "o").replace("\u00fa", "u")
      c = c.replace("/", " /").replace("  ", " ")
      return c
  \<close>
\<close>

fun normalize_col :: "runtime \<Rightarrow> label \<Rightarrow> ustr" where
  "normalize_col rt (NonStr n) = []"
| "normalize_col rt (Name col) =
     replace (str ''  '') (str '' '')
       (replace (str ''/'') (str '' /'')
         (replace [0xFA] (str ''u'')
           (replace [0xF3] (str ''o'')
             (replace [0xED] (str ''i'')
               (replace [0xE9] (str ''e'')
                 (replace [0xE1] (str ''a'')
                   (lower rt (strip col))))))))"

text \<open>
  The alias dictionary, targets in the order of the source (a \<open>dict\<close> keeps it); each
  variant set is written in the order of its literal, and is iterated in the order
  \<open>set_iter\<close> gives.
\<close>

definition COL_ALIASES :: "(ustr \<times> ustr list) list" where
  "COL_ALIASES =
     [(str ''nombre'', [str ''nombre'', str ''proveedor'', str ''razon social'',
                        str ''razon social / nombre'']),
      (str ''web'', [str ''web'', str ''sitio web'', str ''pagina'', str ''pagina web'',
                     str ''website'', str ''url'']),
      (str ''telefono'', [str ''telefono'', str ''tel'', str ''whatsapp'', str ''wa'',
                          str ''telefono/whatsapp'']),
      (str ''email'', [str ''email'', str ''mail'', str ''e-mail'', str ''correo'',
                       str ''correo electronico'']),
      (str ''pais'', [str ''pais'']),
      (str ''provincia / estado'', [str ''provincia / estado'', str ''provincia'',
                                    str ''estado'', str ''provincia-estado'',
                                    str ''provincia/estado'']),
      (str ''ciudad'', [str ''ciudad'', str ''localidad'']),
      (str ''direccion'', [str ''direccion'', str ''direc'', str ''domicilio'']),
      (str ''productos'', [str ''productos'', str ''producto'', str ''items'',
                           str ''categorias'', str ''categoria''])]"

definition DISPLAY_ORDER :: "ustr list" where
  "DISPLAY_ORDER =
     [str ''nombre'', str ''web'', str ''telefono'', str ''email'', str ''pais'',
      str ''provincia / estado'', str ''ciudad'', str ''direccion'']"

section \<open>Tables\<close>

text \<open>
  A \<open>DataFrame\<close>: the length of its index and its columns in order, each a label with its
  cells. Labels may repeat. In a well-formed frame every column has one cell per row.
\<close>

record dataframe =
  nrows :: nat
  cols :: "(label \<times> pyval list) list"

definition wf :: "dataframe \<Rightarrow> bool" where
  "wf df \<longleftrightarrow> list_all (\<lambda>(l, vs). length vs = nrows df) (cols df)"

definition columns :: "dataframe \<Rightarrow> label list" where
  "columns df = map fst (cols df)"

definition empty :: "dataframe \<Rightarrow> bool" where
  "empty df \<longleftrightarrow> nrows df = 0 \<or> cols df = []"

definition empty_frame :: "ustr list \<Rightarrow> dataframe" where
  "empty_frame names = \<lparr>nrows = 0, cols = map (\<lambda>n. (Name n, [])) names\<rparr>"

section \<open>The program: \<open>standardize_columns\<close>\<close>

text \<open>
  \<open>cols_norm = {_normalize_col(c): c for c in df.columns}\<close>: a later column with the same
  key replaces an earlier one.
\<close>

definition cols_norm :: "runtime \<Rightarrow> label list \<Rightarrow> (ustr \<rightharpoonup> label)" where
  "cols_norm rt cs = fold (\<lambda>c m. m(normalize_col rt c \<mapsto> c)) cs Map.empty"

text \<open>The inner loop: the first variant, in iteration order, that is a key of \<open>cols_norm\<close>.\<close>

fun first_found :: "(ustr \<rightharpoonup> label) \<Rightarrow> ustr list \<Rightarrow> label option" where
  "first_found m [] = None"
| "first_found m (v # vs) = (if m v \<noteq> None then m v else first_found m vs)"

definition build_mapping :: "runtime \<Rightarrow> (ustr \<times> ustr list) list \<Rightarrow> label list \<Rightarrow> (label \<rightharpoonup> ustr)" where
  "build_mapping rt aliases cs =
     fold (\<lambda>(target, variants) mapping.
             case first_found (cols_norm rt cs) (set_iter rt variants) of
               None \<Rightarrow> mapping
             | Some found \<Rightarrow> mapping(found \<mapsto> target))
          aliases Map.empty"

text \<open>\<open>df.rename(columns=mapping)\<close>: every column whose label is a key gets the new label.\<close>

definition rename :: "(label \<rightharpoonup> ustr) \<Rightarrow> dataframe \<Rightarrow> dataframe" where
  "rename mapping df =
     df\<lparr>cols := map (\<lambda>(l, vs). (case mapping l of None \<Rightarrow> l | Some t \<Rightarrow> Name t, vs)) (cols df)\<rparr>"

text \<open>\<open>if needed not in df2.columns: df2[needed] = ""\<close>\<close>

definition ensure_column :: "ustr \<Rightarrow> dataframe \<Rightarrow> dataframe" where
  "ensure_column needed df =
     (if Name needed \<in> set (columns df) then df
      else df\<lparr>cols := cols df @ [(Name needed, replicate (nrows df) (PStr []))]\<rparr>)"

text \<open>
  \<open>df2[c] = df2[c].fillna("").astype(str).str.strip()\<close> for every label \<open>c\<close>. Where the
  label occurs more than once, \<open>df2[c]\<close> is a frame, which has no \<open>.str\<close>: the access raises
  \<open>AttributeError\<close>.
\<close>

definition clean_cell :: "pyval \<Rightarrow> pyval" where
  "clean_cell v = PStr (strip (if isna v then [] else py_str v))"

definition clean_column :: "label \<Rightarrow> dataframe \<Rightarrow> dataframe" where
  "clean_column c df =
     df\<lparr>cols := map (\<lambda>(l, vs). if l = c then (l, map clean_cell vs) else (l, vs)) (cols df)\<rparr>"

fun clean_columns :: "label list \<Rightarrow> dataframe \<Rightarrow> error + dataframe" where
  "clean_columns [] df = Inr df"
| "clean_columns (c # cs) df =
     (if length (filter (\<lambda>l. l = c) (columns df)) > 1 then Inl AttributeError
      else clean_columns cs (clean_column c df))"

definition standardize_columns :: "runtime \<Rightarrow> dataframe option \<Rightarrow> error + dataframe" where
  "standardize_columns rt df =
     (case df of
        None \<Rightarrow> Inr (empty_frame (DISPLAY_ORDER @ [str ''productos'']))
      | Some d \<Rightarrow>
          if empty d then Inr (empty_frame (DISPLAY_ORDER @ [str ''productos'']))
          else
            let df2 = rename (build_mapping rt COL_ALIASES (columns d)) d;
                df3 = fold ensure_column (set_iter rt (DISPLAY_ORDER @ [str ''productos''])) df2
            in clean_columns (columns df3) df3)"

section \<open>The program: searching and exporting\<close>

text \<open>
  \<open>df[l]\<close>: the cells of the column labelled \<open>l\<close>. Without such a column the access raises
  \<open>KeyError\<close>; with several it yields a frame, and \<open>match_row\<close> is then handed a whole
  column, whose truth value raises \<open>ValueError\<close>.
\<close>

definition getitem :: "dataframe \<Rightarrow> label \<Rightarrow> error + pyval list" where
  "getitem df l =
     (case filter (\<lambda>(l', vs). l' = l) (cols df) of
        [] \<Rightarrow> Inl KeyError
      | [(l', vs)] \<Rightarrow> Inr vs
      | _ \<Rightarrow> Inl ValueError)"

definition select :: "bool list \<Rightarrow> 'a list \<Rightarrow> 'a list" where
  "select keep vs = map snd (filter fst (zip keep vs))"

text \<open>
  \<open>df.loc[mask, names].reset_index(drop=True)\<close>: the rows whose mask is true, and for each
  name in turn the columns labelled by it; a name that labels no column raises \<open>KeyError\<close>.
\<close>

definition loc :: "bool list \<Rightarrow> ustr list \<Rightarrow> dataframe \<Rightarrow> error + dataframe" where
  "loc keep names df =
     (if list_ex (\<lambda>n. Name n \<notin> set (columns df)) names then Inl KeyError
      else Inr \<lparr>nrows = length (filter id keep),
                cols = concat (map (\<lambda>n. map (\<lambda>(l, vs). (l, select keep vs))
                                           (filter (\<lambda>(l, vs). l = Name n) (cols df)))
                                 names)\<rparr>)"

text \<open>
  \<^verbatim>\<open>
  if terms:
      mask = df["productos"].apply(lambda x: match_row(x, terms))
      results = df.loc[mask, DISPLAY_ORDER].reset_index(drop=True)
  else:
      results = pd.DataFrame(columns=DISPLAY_ORDER)
  \<close>
\<close>

definition mask_of :: "runtime \<Rightarrow> pyval list \<Rightarrow> ustr list \<Rightarrow> bool list" where
  "mask_of rt col terms = map (\<lambda>x. match_row rt x terms) col"

definition search :: "runtime \<Rightarrow> dataframe \<Rightarrow> ustr list \<Rightarrow> error + dataframe" where
  "search rt df terms =
     (if terms \<noteq> [] then
        (case getitem df (Name (str ''productos'')) of
           Inl e \<Rightarrow> Inl e
         | Inr col \<Rightarrow> loc (mask_of rt col terms) DISPLAY_ORDER df)
      else Inr (empty_frame DISPLAY_ORDER))"

text \<open>
  \<open>results.to_csv(index=False)\<close>: a line of the column labels, then a line for every row;
  the fields of a line are quoted by the writer and joined by commas, a missing value is
  written as the empty field.
\<close>

fun join :: "ustr \<Rightarrow> ustr list \<Rightarrow> ustr" where
  "join sep [] = []"
| "join sep [x] = x"
| "join sep (x # y # ys) = x @ sep @ join sep (y # ys)"

definition csv_field :: "pyval \<Rightarrow> ustr" where
  "csv_field v = (if isna v then [] else py_str v)"

definition row_at :: "dataframe \<Rightarrow> nat \<Rightarrow> pyval list" where
  "row_at df i = map (\<lambda>(l, vs). vs ! i) (cols df)"

definition csv_line :: "runtime \<Rightarrow> ustr list \<Rightarrow> ustr" where
  "csv_line rt fs = join (str '','') (map (quote_field rt) fs) @ lineterminator rt"

definition to_csv :: "runtime \<Rightarrow> dataframe \<Rightarrow> ustr" where
  "to_csv rt df =
     concat (map (csv_line rt)
               (map label_text (columns df) #
                map (\<lambda>i. map csv_field (row_at df i)) [0..<nrows df]))"

text \<open>
  \<open>.encode("utf-8-sig")\<close>: the three bytes of the byte-order mark, then UTF-8; a surrogate
  code point cannot be encoded. (A \<open>str\<close> holds code points up to U+10FFFF.)
\<close>

definition utf8_char :: "nat \<Rightarrow> error + 8 word list" where
  "utf8_char c =
     (if c < 0x80 then Inr [of_nat c]
      else if c < 0x800 then Inr [of_nat (0xC0 + c div 0x40), of_nat (0x80 + c mod 0x40)]
      else if 0xD800 \<le> c \<and> c \<le> 0xDFFF then Inl UnicodeEncodeError
      else if c < 0x10000 then
        Inr [of_nat (0xE0 + c div 0x1000), of_nat (0x80 + c div 0x40 mod 0x40),
             of_nat (0x80 + c mod 0x40)]
      else
        Inr [of_nat (0xF0 + c div 0x40000), of_nat (0x80 + c div 0x1000 mod 0x40),
             of_nat (0x80 + c div 0x40 mod 0x40), of_nat (0x80 + c mod 0x40)])"

fun utf8 :: "ustr \<Rightarrow> error + 8 word list" where
  "utf8 [] = Inr []"
| "utf8 (c # cs) =
     (case utf8_char c of
        Inl e \<Rightarrow> Inl e
      | Inr bs \<Rightarrow> (case utf8 cs of Inl e \<Rightarrow> Inl e | Inr rest \<Rightarrow> Inr (bs @ rest)))"

definition BOM_UTF8 :: "8 word list" where
  "BOM_UTF8 = [0xEF, 0xBB, 0xBF]"

definition encode_utf_8_sig :: "ustr \<Rightarrow> error + 8 word list" where
  "encode_utf_8_sig s = (case utf8 s of Inl e \<Rightarrow> Inl e | Inr bs \<Rightarrow> Inr (BOM_UTF8 @ bs))"

text \<open>
  The page the script shows for a sheet, a selected country and a query: the script stops
  at an absent or empty sheet, and otherwise computes the terms, the results, the message
  under "Resultados" and, when there are results, the file offered for download.
\<close>

datatype message = No_results | Awaiting_input | Found nat

record page =
  terms :: "ustr list"
  results :: dataframe
  message :: message
  download :: "(ustr \<times> 8 word list) option"

datatype outcome = Stopped | Raised error | Rendered page

definition message_of :: "ustr list \<Rightarrow> dataframe \<Rightarrow> message" where
  "message_of ts res =
     (if ts \<noteq> [] \<and> empty res then No_results
      else if ts = [] then Awaiting_input
      else Found (nrows res))"

definition query_terms :: "runtime \<Rightarrow> ustr \<Rightarrow> ustr list" where
  "query_terms rt q = (if q \<noteq> [] then tokenize_query rt (PStr q) else [])"

definition file_name :: "ustr \<Rightarrow> ustr" where
  "file_name selected_country = str ''proveedores_'' @ selected_country @ str ''.csv''"

definition render :: "runtime \<Rightarrow> ustr \<Rightarrow> ustr list \<Rightarrow> dataframe \<Rightarrow> outcome" where
  "render rt selected_country ts res =
     (if \<not> empty res then
        (case encode_utf_8_sig (to_csv rt res) of
           Inl e \<Rightarrow> Raised e
         | Inr csv \<Rightarrow>
             Rendered \<lparr>terms = ts, results = res, message = message_of ts res,
                       download = Some (file_name selected_country, csv)\<rparr>)
      else Rendered \<lparr>terms = ts, results = res, message = message_of ts res, download = None\<rparr>)"

definition app :: "runtime \<Rightarrow> dataframe option \<Rightarrow> ustr \<Rightarrow> ustr \<Rightarrow> outcome" where
  "app rt raw_df selected_country q =
     (case raw_df of
        None \<Rightarrow> Stopped
      | Some d \<Rightarrow>
          if empty d then Stopped
          else
            (case standardize_columns rt raw_df of
               Inl e \<Rightarrow> Raised e
             | Inr df \<Rightarrow>
                 (case search rt df (query_terms rt q) of
                    Inl e \<Rightarrow> Raised e
                  | Inr res \<Rightarrow> render rt selected_country (query_terms rt q) res)))"

section \<open>A concrete runtime\<close>

text \<open>
  A runtime to run the program on concrete inputs. Its Unicode data are those of the
  characters U+0080 to U+00FF and of the combining marks U+0300 to U+036F (every other
  code point is left unchanged, with combining class 0); its sets are iterated in the order
  their elements were written; its CSV writer quotes a field that holds a comma, a double
  quote, a carriage return or a line feed, doubling the quotes inside, and ends a line with
  a line feed.
\<close>

definition latin1_decomposition :: "(nat \<times> ustr) list" where
  "latin1_decomposition =
     [
      (0xA0, [0x20]), (0xA8, [0x20, 0x308]), (0xAA, [0x61]), (0xAF, [0x20, 0x304]),
      (0xB2, [0x32]), (0xB3, [0x33]), (0xB4, [0x20, 0x301]), (0xB5, [0x3BC]),
      (0xB8, [0x20, 0x327]), (0xB9, [0x31]), (0xBA, [0x6F]), (0xBC, [0x31, 0x2044, 0x34]),
      (0xBD, [0x31, 0x2044, 0x32]), (0xBE, [0x33, 0x2044, 0x34]), (0xC0, [0x41, 0x300]), (0xC1, [0x41, 0x301]),
      (0xC2, [0x41, 0x302]), (0xC3, [0x41, 0x303]), (0xC4, [0x41, 0x308]), (0xC5, [0x41, 0x30A]),
      (0xC7, [0x43, 0x327]), (0xC8, [0x45, 0x300]), (0xC9, [0x45, 0x301]), (0xCA, [0x45, 0x302]),
      (0xCB, [0x45, 0x308]), (0xCC, [0x49, 0x300]), (0xCD, [0x49, 0x301]), (0xCE, [0x49, 0x302]),
      (0xCF, [0x49, 0x308]), (0xD1, [0x4E, 0x303]), (0xD2, [0x4F, 0x300]), (0xD3, [0x4F, 0x301]),
      (0xD4, [0x4F, 0x302]), (0xD5, [0x4F, 0x303]), (0xD6, [0x4F, 0x308]), (0xD9, [0x55, 0x300]),
      (0xDA, [0x55, 0x301]), (0xDB, [0x55, 0x302]), (0xDC, [0x55, 0x308]), (0xDD, [0x59, 0x301]),
      (0xE0, [0x61, 0x300]), (0xE1, [0x61, 0x301]), (0xE2, [0x61, 0x302]), (0xE3, [0x61, 0x303]),
      (0xE4, [0x61, 0x308]), (0xE5, [0x61, 0x30A]), (0xE7, [0x63, 0x327]), (0xE8, [0x65, 0x300]),
      (0xE9, [0x65, 0x301]), (0xEA, [0x65, 0x302]), (0xEB, [0x65, 0x308]), (0xEC, [0x69, 0x300]),
      (0xED, [0x69, 0x301]), (0xEE, [0x69, 0x302]), (0xEF, [0x69, 0x308]), (0xF1, [0x6E, 0x303]),
      (0xF2, [0x6F, 0x300]), (0xF3, [0x6F, 0x301]), (0xF4, [0x6F, 0x302]), (0xF5, [0x6F, 0x303]),
      (0xF6, [0x6F, 0x308]), (0xF9, [0x75, 0x300]), (0xFA, [0x75, 0x301]), (0xFB, [0x75, 0x302]),
      (0xFC, [0x75, 0x308]), (0xFD, [0x79, 0x301]), (0xFF, [0x79, 0x308])]"

definition marks_not_above :: "(nat \<times> nat) list" where
  "marks_not_above =
     [
      (0x315, 232), (0x316, 220), (0x317, 220), (0x318, 220), (0x319, 220), (0x31A, 232),
      (0x31B, 216), (0x31C, 220), (0x31D, 220), (0x31E, 220), (0x31F, 220), (0x320, 220),
      (0x321, 202), (0x322, 202), (0x323, 220), (0x324, 220), (0x325, 220), (0x326, 220),
      (0x327, 202), (0x328, 202), (0x329, 220), (0x32A, 220), (0x32B, 220), (0x32C, 220),
      (0x32D, 220), (0x32E, 220), (0x32F, 220), (0x330, 220), (0x331, 220), (0x332, 220),
      (0x333, 220), (0x334, 1), (0x335, 1), (0x336, 1), (0x337, 1), (0x338, 1),
      (0x339, 220), (0x33A, 220), (0x33B, 220), (0x33C, 220), (0x345, 240), (0x347, 220),
      (0x348, 220), (0x349, 220), (0x34D, 220), (0x34E, 220), (0x353, 220), (0x354, 220),
      (0x355, 220), (0x356, 220), (0x358, 232), (0x359, 220), (0x35A, 220), (0x35C, 233),
      (0x35D, 234), (0x35E, 234), (0x35F, 233), (0x360, 234), (0x361, 234), (0x362, 233)]"

definition latin1_lower :: "nat \<Rightarrow> nat" where
  "latin1_lower c = (if 0xC0 \<le> c \<and> c \<le> 0xDE \<and> c \<noteq> 0xD7 then c + 0x20 else c)"

definition declaration_order :: "ustr list \<Rightarrow> ustr list" where
  "declaration_order xs = rev (remdups (rev xs))"

definition quote_minimal :: "ustr \<Rightarrow> ustr" where
  "quote_minimal f =
     (if list_ex (\<lambda>c. c = 0x2C \<or> c = 0x22 \<or> c = 0x0D \<or> c = 0x0A) f
      then [0x22] @ replace [0x22] [0x22, 0x22] f @ [0x22] else f)"

definition rt0 :: runtime where
  "rt0 = \<lparr>tolower = (\<lambda>s i. [latin1_lower (s ! i)]),
          decomposition = (\<lambda>c. case map_of latin1_decomposition c of Some d \<Rightarrow> d | None \<Rightarrow> [c]),
          combining_class =
            (\<lambda>c. case map_of marks_not_above c of
                    Some k \<Rightarrow> k
                  | None \<Rightarrow> if 0x300 \<le> c \<and> c \<le> 0x36F \<and> c \<noteq> 0x34F then 230 else 0),
          casefolding = (\<lambda>c. if c = 0xDF then str ''ss'' else if c = 0xB5 then [0x3BC]
                              else [latin1_lower c]),
          set_iter = declaration_order,
          quote_field = quote_minimal,
          lineterminator = [0x0A]\<rparr>"

text \<open>The same runtime with every set iterated in the reverse order.\<close>

definition rt1 :: runtime where
  "rt1 = rt0\<lparr>set_iter := (\<lambda>xs. rev (declaration_order xs))\<rparr>"
section \<open>Auxiliary definitions and inputs of the claims\<close>

text \<open>
  The frame \<open>standardize_columns\<close> has built from a non-empty sheet when it enters its
  clean-up loop: the columns renamed, the missing canonical columns added.
\<close>

definition completed :: "runtime \<Rightarrow> dataframe \<Rightarrow> dataframe" where
  "completed rt d =
     fold ensure_column (set_iter rt (DISPLAY_ORDER @ [str ''productos'']))
       (rename (build_mapping rt COL_ALIASES (columns d)) d)"


text \<open>A field text, possibly null: \<open>None\<close> or a \<open>str\<close>.\<close>

fun is_text_or_null :: "pyval \<Rightarrow> bool" where
  "is_text_or_null PNone = True"
| "is_text_or_null (PStr s) = True"
| "is_text_or_null v = False"

text \<open>
  A sheet of two suppliers: a supplier column, a product column with an empty cell, and a
  column whose header is a number.
\<close>

definition sample_sheet :: dataframe where
  "sample_sheet =
     \<lparr>nrows = 2,
      cols = [(Name (str ''Proveedor''), [PStr (str '' Lata, S.A. ''), PStr (str ''Cobres Sur'')]),
              (Name (str ''Producto''), [PStr (str ''Latas, tapas, malta''), PNaN]),
              (NonStr (str ''2024''), [PNone, PObj True (str ''7'')])]\<rparr>"

text \<open>What \<open>standardize_columns\<close> returns for the sample sheet on the concrete runtime.\<close>

definition sample_standard :: dataframe where
  "sample_standard =
     \<lparr>nrows = 2,
      cols = [(Name (str ''nombre''), [PStr (str ''Lata, S.A.''), PStr (str ''Cobres Sur'')]),
              (Name (str ''productos''), [PStr (str ''Latas, tapas, malta''), PStr []]),
              (NonStr (str ''2024''), [PStr [], PStr (str ''7'')]),
              (Name (str ''web''), [PStr [], PStr []]),
              (Name (str ''telefono''), [PStr [], PStr []]),
              (Name (str ''email''), [PStr [], PStr []]),
              (Name (str ''pais''), [PStr [], PStr []]),
              (Name (str ''provincia / estado''), [PStr [], PStr []]),
              (Name (str ''ciudad''), [PStr [], PStr []]),
              (Name (str ''direccion''), [PStr [], PStr []])]\<rparr>"

text \<open>The CSV text of the one supplier of the sample sheet that sells "malta".\<close>

definition sample_csv :: ustr where
  "sample_csv =
     str ''nombre,web,telefono,email,pais,provincia / estado,ciudad,direccion'' @ [0x0A] @
     [0x22] @ str ''Lata, S.A.'' @ [0x22] @ str '',,,,,,,'' @ [0x0A]"

text \<open>
  What Python promises of the iteration of a set: every element once, in some order. The
  concrete runtimes keep the promise.
\<close>

definition iterates_sets :: "runtime \<Rightarrow> bool" where
  "iterates_sets rt \<longleftrightarrow> (\<forall>xs. set (set_iter rt xs) = set xs \<and> distinct (set_iter rt xs))"

text \<open>A sheet with the headers "nombre" and "Nombre".\<close>

definition duplicate_sheet :: dataframe where
  "duplicate_sheet =
     \<lparr>nrows = 1,
      cols = [(Name (str ''nombre''), [PStr (str ''Maltas SA'')]),
              (Name (str ''Nombre''), [PStr (str ''Maltas'')])]\<rparr>"

text \<open>A sheet whose only header is the variant "provincia/estado" of the alias dictionary.\<close>

definition slash_sheet :: dataframe where
  "slash_sheet =
     \<lparr>nrows = 1,
      cols = [(Name (str ''provincia/estado''), [PStr (str ''Mendoza'')])]\<rparr>"

text \<open>A sheet with three headers that are variants of "nombre".\<close>

definition three_names_sheet :: dataframe where
  "three_names_sheet =
     \<lparr>nrows = 1,
      cols = [(Name (str ''Proveedor''), [PStr (str ''a'')]),
              (Name (str ''Nombre''), [PStr (str ''b'')]),
              (Name (str ''PROVEEDOR''), [PStr (str ''c'')])]\<rparr>"

text \<open>A sheet with the headers "Proveedor" and "PROVEEDOR".\<close>

definition proveedor_sheet :: dataframe where
  "proveedor_sheet =
     \<lparr>nrows = 1,
      cols = [(Name (str ''Proveedor''), [PStr (str ''Maltas'')]),
              (Name (str ''PROVEEDOR''), [PStr (str ''Maltas SA'')])]\<rparr>"

text \<open>
  What \<open>standardize_columns\<close> returns for that sheet when every set is iterated in the
  reverse order.
\<close>

definition proveedor_once :: dataframe where
  "proveedor_once =
     \<lparr>nrows = 1,
      cols = [(Name (str ''Proveedor''), [PStr (str ''Maltas'')]),
              (Name (str ''nombre''), [PStr (str ''Maltas SA'')]),
              (Name (str ''productos''), [PStr []]),
              (Name (str ''direccion''), [PStr []]),
              (Name (str ''ciudad''), [PStr []]),
              (Name (str ''provincia / estado''), [PStr []]),
              (Name (str ''pais''), [PStr []]),
              (Name (str ''email''), [PStr []]),
              (Name (str ''telefono''), [PStr []]),
              (Name (str ''web''), [PStr []])]\<rparr>"

text \<open>
  An iteration of the variant sets that yields the canonical name of every target first, as
  the order in which the dictionary is written does.
\<close>

definition canonical_first :: "runtime \<Rightarrow> bool" where
  "canonical_first rt \<longleftrightarrow> list_all (\<lambda>(t, vs). \<exists>rest. set_iter rt vs = t # rest) COL_ALIASES"
section \<open>Evaluation on concrete inputs\<close>

text \<open>The defining equations that the simplifier unfolds to run the program on an input.\<close>

lemmas std_eval = empty_def empty_frame_def columns_def cols_norm_def
  build_mapping_def COL_ALIASES_def DISPLAY_ORDER_def rename_def ensure_column_def clean_cell_def clean_column_def
  strip_def isspace_def lower_def ascii_lower_def rt0_def declaration_order_def latin1_lower_def

lemmas app_eval = search_def getitem_def loc_def select_def mask_of_def match_row_def
  tokenize_query_def query_terms_def is_sep_def render_def message_of_def to_csv_def csv_line_def
  csv_field_def row_at_def encode_utf_8_sig_def utf8_char_def BOM_UTF8_def file_name_def
  quote_minimal_def normalize_text_def nfkd_def decompose_def combining_def casefold_def
section \<open>Substring matching\<close>

lemma take_length_eq_iff: "take (length t) xs = t \<longleftrightarrow> (\<exists>b. xs = t @ b)"
proof
  assume "take (length t) xs = t"
  then have "xs = t @ drop (length t) xs" by (metis append_take_drop_id)
  then show "\<exists>b. xs = t @ b" ..
next
  assume "\<exists>b. xs = t @ b"
  then show "take (length t) xs = t" by auto
qed

lemma contains_iff: "contains p t \<longleftrightarrow> (\<exists>a b. p = a @ t @ b)"
proof (induction p)
  case Nil
  show ?case by auto
next
  case (Cons c cs)
  have "(\<exists>a b. c # cs = a @ t @ b) \<longleftrightarrow> (\<exists>b. c # cs = t @ b) \<or> (\<exists>a b. cs = a @ t @ b)"
  proof
    assume "\<exists>a b. c # cs = a @ t @ b"
    then obtain a b where ab: "c # cs = a @ t @ b" by blast
    show "(\<exists>b. c # cs = t @ b) \<or> (\<exists>a b. cs = a @ t @ b)"
    proof (cases a)
      case Nil
      with ab show ?thesis by auto
    next
      case (Cons x a')
      with ab have "cs = a' @ t @ b" by simp
      then show ?thesis by blast
    qed
  next
    assume "(\<exists>b. c # cs = t @ b) \<or> (\<exists>a b. cs = a @ t @ b)"
    then show "\<exists>a b. c # cs = a @ t @ b"
    proof
      assume "\<exists>b. c # cs = t @ b"
      then obtain b where "c # cs = [] @ t @ b" by auto
      then show ?thesis by blast
    next
      assume "\<exists>a b. cs = a @ t @ b"
      then obtain a b where "c # cs = (c # a) @ t @ b" by auto
      then show ?thesis by blast
    qed
  qed
  with Cons show ?case
    using take_length_eq_iff [of t "c # cs"] by simp
qed

lemma or_empty_text:
  "is_text_or_null f \<Longrightarrow> normalize_text rt (if truthy f then f else PStr []) = normalize_text rt f"
  by (cases f) (auto simp: normalize_text_def)

lemmas ascii_eval = normalize_text_def strip_def isspace_def nfkd_def decompose_def
  combining_def casefold_def ascii_lower_def

text \<open>
  Claim C2, as amended. For a field text that is a \<open>str\<close> or null, \<open>match_row\<close> holds
  exactly when every term occurs as a contiguous substring of the normalised field. The
  term "lata" matches the field "latas de aluminio"; it does not match "latex", and the
  term "latas" does not match "lato".
\<close>

theorem match_row_substrings:
  "(is_text_or_null f \<longrightarrow>
      (match_row rt f ts \<longleftrightarrow> (\<forall>t\<in>set ts. \<exists>a b. normalize_text rt f = a @ t @ b))) \<and>
   match_row rt (PStr (str ''latas de aluminio'')) [str ''lata''] \<and>
   \<not> match_row rt (PStr (str ''latex'')) [str ''lata''] \<and>
   \<not> match_row rt (PStr (str ''lato'')) [str ''latas'']"
proof -
  have "match_row rt f ts \<longleftrightarrow> (\<forall>t\<in>set ts. \<exists>a b. normalize_text rt f = a @ t @ b)"
    if "is_text_or_null f"
    using that by (simp add: match_row_def or_empty_text list_all_iff contains_iff)
  moreover have "match_row rt (PStr (str ''latas de aluminio'')) [str ''lata'']"
    by (simp add: match_row_def ascii_eval)
  moreover have "\<not> match_row rt (PStr (str ''latex'')) [str ''lata'']"
    by (simp add: match_row_def ascii_eval)
  moreover have "\<not> match_row rt (PStr (str ''lato'')) [str ''latas'']"
    by (simp add: match_row_def ascii_eval)
  ultimately show ?thesis by blast
qed

text \<open>
  Claim C2 as stated says that the term "lata" matches a field containing "latex"; it does
  not, "latex" has no substring "lata".
\<close>

theorem match_row_latex_counterexample:
  "\<not> match_row rt0 (PStr (str ''latex'')) [str ''lata'']"
  by (simp add: match_row_def ascii_eval)

text \<open>The amended claim C2 at the field "Latas, tapas, malta" and the terms "malta", "lata".\<close>

theorem match_row_substrings_witness:
  "is_text_or_null (PStr (str ''Latas, tapas, malta'')) \<and>
   match_row rt0 (PStr (str ''Latas, tapas, malta'')) [str ''malta'', str ''lata''] \<and>
   (\<exists>a b. normalize_text rt0 (PStr (str ''Latas, tapas, malta'')) = a @ str ''malta'' @ b)"
proof -
  have m: "match_row rt0 (PStr (str ''Latas, tapas, malta'')) [str ''malta'', str ''lata'']"
    by (simp add: match_row_def ascii_eval)
  with match_row_substrings [of "PStr (str ''Latas, tapas, malta'')" rt0 "[str ''malta'', str ''lata'']"]
  show ?thesis by simp
qed

text \<open>
  Claim C9. With no terms \<open>match_row\<close> holds for every field, so a mask computed from no
  terms would keep every row; it is the caller that answers an empty term list with the
  empty frame of the display columns, without computing a mask.
\<close>

theorem match_row_no_terms:
  "match_row rt f [] \<and>
   mask_of rt col [] = replicate (length col) True \<and>
   search rt df [] = Inr (empty_frame DISPLAY_ORDER) \<and>
   nrows (empty_frame DISPLAY_ORDER) = 0"
proof -
  have all: "match_row rt x []" for x
    by (simp add: match_row_def)
  then have "mask_of rt col [] = map (\<lambda>x. True) col"
    by (simp add: mask_of_def)
  then have keep: "mask_of rt col [] = replicate (length col) True"
    by (simp add: map_replicate_const)
  have caller: "search rt df [] = Inr (empty_frame DISPLAY_ORDER)"
    by (simp add: search_def)
  have "nrows (empty_frame DISPLAY_ORDER) = 0"
    by (simp add: empty_frame_def)
  with all [of f] keep caller show ?thesis by simp
qed
section \<open>Text normalisation\<close>

lemma filter_canonical_order:
  "\<forall>c\<in>set run. combining rt c \<noteq> 0 \<Longrightarrow>
   filter (\<lambda>ch. combining rt ch = 0) (canonical_order rt run s) = filter (\<lambda>ch. combining rt ch = 0) s"
proof (induction s arbitrary: run)
  case Nil
  then show ?case by (simp add: filter_empty_conv)
next
  case (Cons c cs)
  show ?case
  proof (cases "combining rt c = 0")
    case True
    have "filter (\<lambda>ch. combining rt ch = 0) (sort_key (combining rt) run) = []"
      using Cons.prems by (simp add: filter_empty_conv)
    with True Cons.IH [of "[]"] show ?thesis by simp
  next
    case False
    with Cons.prems have "\<forall>x\<in>set (run @ [c]). combining rt x \<noteq> 0" by simp
    from Cons.IH [OF this] False show ?thesis by simp
  qed
qed

lemma normalize_text_unordered:
  "normalize_text rt v =
     casefold rt (filter (\<lambda>ch. combining rt ch = 0) (concat (map (decompose rt) (strip (coerce v)))))"
  by (simp add: normalize_text_def nfkd_def filter_canonical_order)

lemma strip_blank:
  assumes "list_all isspace s"
  shows "strip s = []"
proof -
  from assms have d: "dropWhile isspace s = []" by (simp add: list_all_iff)
  show ?thesis unfolding strip_def d by simp
qed

text \<open>
  Claim C8. \<open>normalize_text\<close> coerces its argument to a string (\<open>None\<close> becomes the empty
  string, a string is kept, any other object gives its \<open>str()\<close> text), trims it, decomposes
  every character, drops the characters of non-zero combining class and case-folds what is
  left; the canonical reordering that NFKD also performs does not show in the result. It is
  a function of its argument and of the Unicode data alone. With the Unicode data of
  U+00E1 (decomposed into U+0061 U+0301, the second a combining mark), the word "Malaga"
  spelt with U+00E1 for its first "a", "malaga" and "MALAGA" all normalise to "malaga".
\<close>

theorem normalize_text_steps:
  "normalize_text rt v =
     casefold rt (filter (\<lambda>ch. combining rt ch = 0)
                    (concat (map (decompose rt) (strip (coerce v))))) \<and>
   coerce PNone = [] \<and> coerce (PStr s) = s \<and> coerce (PObj b s) = s \<and>
   normalize_text rt PNone = [] \<and>
   (decomposition rt 0xE1 = [0x61, 0x301] \<and> combining_class rt 0x301 \<noteq> 0 \<longrightarrow>
      normalize_text rt (PStr [0x4D, 0xE1, 0x6C, 0x61, 0x67, 0x61]) = str ''malaga'' \<and>
      normalize_text rt (PStr (str ''malaga'')) = str ''malaga'' \<and>
      normalize_text rt (PStr (str ''MALAGA'')) = str ''malaga'')"
proof -
  have "normalize_text rt PNone = []"
    by (simp add: ascii_eval)
  moreover have "normalize_text rt (PStr (str ''malaga'')) = str ''malaga''"
    by (simp add: ascii_eval)
  moreover have "normalize_text rt (PStr (str ''MALAGA'')) = str ''malaga''"
    by (simp add: ascii_eval)
  moreover have "normalize_text rt (PStr [0x4D, 0xE1, 0x6C, 0x61, 0x67, 0x61]) = str ''malaga''"
    if "decomposition rt 0xE1 = [0x61, 0x301]" "combining_class rt 0x301 \<noteq> 0"
    using that by (simp add: ascii_eval)
  ultimately show ?thesis
    using normalize_text_unordered [of rt v] by simp
qed

text \<open>Claim C8 on the concrete runtime, whose data for U+00E1 and U+0301 are those of Unicode.\<close>

theorem normalize_text_steps_witness:
  "decomposition rt0 0xE1 = [0x61, 0x301] \<and> combining_class rt0 0x301 \<noteq> 0 \<and>
   normalize_text rt0 (PStr [0x4D, 0xE1, 0x6C, 0x61, 0x67, 0x61]) = str ''malaga'' \<and>
   normalize_text rt0 (PStr (str ''MALAGA'')) = str ''malaga''"
proof -
  have h: "decomposition rt0 0xE1 = [0x61, 0x301] \<and> combining_class rt0 0x301 \<noteq> 0"
    by (simp add: rt0_def latin1_decomposition_def marks_not_above_def)
  with normalize_text_steps [of rt0] show ?thesis by blast
qed
section \<open>The empty query\<close>

lemma query_terms_blank: "list_all isspace q \<Longrightarrow> query_terms rt q = []"
  by (simp add: query_terms_def tokenize_query_def strip_blank ascii_eval del: strip_def)

lemma empty_display_frame: "empty (empty_frame DISPLAY_ORDER)"
  by (simp add: empty_def empty_frame_def)

lemma render_message:
  "render rt c ts res = Rendered p \<Longrightarrow> terms p = ts \<and> results p = res \<and> message p = message_of ts res"
  by (auto simp: render_def split: if_splits sum.splits)

lemma render_no_download:
  "render rt c ts res = Rendered p \<Longrightarrow> empty res \<Longrightarrow> download p = None"
  by (auto simp: render_def)

lemma app_rendered:
  assumes "app rt raw c q = Rendered p"
  shows "\<exists>d df. raw = Some d \<and> \<not> empty d \<and> standardize_columns rt raw = Inr df \<and>
           search rt df (query_terms rt q) = Inr (results p) \<and>
           render rt c (query_terms rt q) (results p) = Rendered p"
proof -
  from assms obtain d where d: "raw = Some d" "\<not> empty d"
    by (auto simp: app_def split: option.splits if_splits)
  with assms obtain df where df: "standardize_columns rt raw = Inr df"
    by (auto simp: app_def split: sum.splits)
  with assms d obtain res where res: "search rt df (query_terms rt q) = Inr res"
    "render rt c (query_terms rt q) res = Rendered p"
    by (auto simp: app_def split: sum.splits)
  from render_message [OF res(2)] have "results p = res" by simp
  with d df res show ?thesis by auto
qed

text \<open>
  Claim C7. For a sheet that has been standardised, a query made of whitespace only (the
  empty query included) gives no terms and the empty frame of the display columns, and the
  page shows the awaiting-input message with no download. The message is the
  awaiting-input one exactly when there are no terms; a query that gives at least one term
  and no matching row shows the no-results message, which is a different one.
\<close>

theorem blank_query_awaits_input:
  "(\<not> empty d \<and> standardize_columns rt (Some d) = Inr df \<and> list_all isspace q \<longrightarrow>
      query_terms rt q = [] \<and> nrows (empty_frame DISPLAY_ORDER) = 0 \<and>
      app rt (Some d) country q =
        Rendered \<lparr>terms = [], results = empty_frame DISPLAY_ORDER,
                  message = Awaiting_input, download = None\<rparr>) \<and>
   (app rt (Some d) country q = Rendered p \<longrightarrow>
      terms p = query_terms rt q \<and>
      (message p = Awaiting_input \<longleftrightarrow> terms p = []) \<and>
      (terms p \<noteq> [] \<and> nrows (results p) = 0 \<longrightarrow> message p = No_results \<and> download p = None)) \<and>
   No_results \<noteq> Awaiting_input"
proof -
  have a: "query_terms rt q = [] \<and> nrows (empty_frame DISPLAY_ORDER) = 0 \<and>
      app rt (Some d) country q =
        Rendered \<lparr>terms = [], results = empty_frame DISPLAY_ORDER,
                  message = Awaiting_input, download = None\<rparr>"
    if h: "\<not> empty d" "standardize_columns rt (Some d) = Inr df" "list_all isspace q"
  proof -
    from h(3) have q: "query_terms rt q = []" by (rule query_terms_blank)
    have "search rt df [] = Inr (empty_frame DISPLAY_ORDER)" by (simp add: search_def)
    with h q have "app rt (Some d) country q = render rt country [] (empty_frame DISPLAY_ORDER)"
      by (simp add: app_def)
    then show ?thesis
      using q empty_display_frame by (simp add: render_def message_of_def empty_frame_def)
  qed
  have b: "terms p = query_terms rt q \<and>
      (message p = Awaiting_input \<longleftrightarrow> terms p = []) \<and>
      (terms p \<noteq> [] \<and> nrows (results p) = 0 \<longrightarrow> message p = No_results \<and> download p = None)"
    if h: "app rt (Some d) country q = Rendered p"
  proof -
    from app_rendered [OF h] have r: "render rt country (query_terms rt q) (results p) = Rendered p"
      by blast
    from render_message [OF r] have m: "terms p = query_terms rt q"
      "message p = message_of (query_terms rt q) (results p)" by simp_all
    have "download p = None" if "nrows (results p) = 0"
      using render_no_download [OF r] that by (simp add: empty_def)
    with m show ?thesis by (auto simp: message_of_def empty_def)
  qed
  from a b show ?thesis by blast
qed

lemma sample_returns: "\<not> isl (standardize_columns rt0 (Some sample_sheet))"
  unfolding standardize_columns_def Let_def
  by (simp add: std_eval sample_sheet_def)

lemma sample_no_match:
  "case app rt0 (Some sample_sheet) (str ''Argentina'') (str ''malta cobre'') of
     Rendered p \<Rightarrow> terms p \<noteq> [] \<and> nrows (results p) = 0 | _ \<Rightarrow> False"
  unfolding app_def standardize_columns_def Let_def
  by (simp add: std_eval app_eval sample_sheet_def)

text \<open>
  Claim C7 on the sample sheet: the query of two spaces awaits input, the query
  "malta cobre" has two terms, matches no supplier and reports no results.
\<close>

theorem blank_query_awaits_input_witness:
  "\<not> empty sample_sheet \<and> list_all isspace (str ''  '') \<and>
   app rt0 (Some sample_sheet) (str ''Argentina'') (str ''  '') =
     Rendered \<lparr>terms = [], results = empty_frame DISPLAY_ORDER,
               message = Awaiting_input, download = None\<rparr> \<and>
   (\<exists>p. app rt0 (Some sample_sheet) (str ''Argentina'') (str ''malta cobre'') = Rendered p \<and>
        terms p \<noteq> [] \<and> nrows (results p) = 0 \<and> message p = No_results)"
proof -
  have e: "\<not> empty sample_sheet" by (simp add: empty_def sample_sheet_def)
  have s: "list_all isspace (str ''  '')" by (simp add: isspace_def)
  obtain df where df: "standardize_columns rt0 (Some sample_sheet) = Inr df"
    using sample_returns by (cases "standardize_columns rt0 (Some sample_sheet)") auto
  obtain p where p: "app rt0 (Some sample_sheet) (str ''Argentina'') (str ''malta cobre'') = Rendered p"
    "terms p \<noteq> []" "nrows (results p) = 0"
    using sample_no_match by (auto split: outcome.splits)
  from blank_query_awaits_input [of sample_sheet rt0 df "str ''  ''" "str ''Argentina''"] e s df
  have 1: "app rt0 (Some sample_sheet) (str ''Argentina'') (str ''  '') =
     Rendered \<lparr>terms = [], results = empty_frame DISPLAY_ORDER,
               message = Awaiting_input, download = None\<rparr>" by blast
  from blank_query_awaits_input [of sample_sheet rt0 df "str ''malta cobre''" "str ''Argentina''" p] p
  have "message p = No_results" by blast
  with e s 1 p show ?thesis by blast
qed
section \<open>The structure of the standardised table\<close>

lemma columns_clean_column: "columns (clean_column c df) = columns df"
  by (simp add: clean_column_def columns_def comp_def case_prod_beta if_distrib [of fst])

lemma nrows_clean_column: "nrows (clean_column c df) = nrows df"
  by (simp add: clean_column_def)

lemma count_distinct: "distinct xs \<Longrightarrow> length (filter (\<lambda>l. l = c) xs) \<le> 1"
  by (induction xs) (auto simp: filter_empty_conv)

lemma count_not_distinct: "\<not> distinct xs \<Longrightarrow> \<exists>c\<in>set xs. 1 < length (filter (\<lambda>l. l = c) xs)"
proof (induction xs)
  case Nil
  then show ?case by simp
next
  case (Cons x xs)
  show ?case
  proof (cases "x \<in> set xs")
    case True
    then have "filter (\<lambda>l. l = x) xs \<noteq> []" by (simp add: filter_empty_conv)
    then have "0 < length (filter (\<lambda>l. l = x) xs)" by simp
    then show ?thesis by auto
  next
    case False
    with Cons.prems have "\<not> distinct xs" by simp
    from Cons.IH [OF this] obtain c where c: "c \<in> set xs" "1 < length (filter (\<lambda>l. l = c) xs)"
      by blast
    with False have "c \<noteq> x" by auto
    with c have "c \<in> set (x # xs)" "1 < length (filter (\<lambda>l. l = c) (x # xs))" by simp_all
    then show ?thesis by blast
  qed
qed

lemma clean_columns_duplicate:
  "\<exists>c\<in>set cs. 1 < length (filter (\<lambda>l. l = c) (columns df)) \<Longrightarrow>
   clean_columns cs df = Inl AttributeError"
proof (induction cs arbitrary: df)
  case Nil
  then show ?case by simp
next
  case (Cons c cs)
  show ?case
  proof (cases "1 < length (filter (\<lambda>l. l = c) (columns df))")
    case True
    then show ?thesis by simp
  next
    case False
    with Cons.prems have "\<exists>x\<in>set cs. 1 < length (filter (\<lambda>l. l = x) (columns (clean_column c df)))"
      by (auto simp: columns_clean_column)
    from Cons.IH [OF this] False show ?thesis by simp
  qed
qed

lemma clean_columns_distinct:
  "distinct (columns df) \<Longrightarrow> distinct cs \<Longrightarrow>
   clean_columns cs df =
     Inr (df\<lparr>cols := map (\<lambda>(l, vs). if l \<in> set cs then (l, map clean_cell vs) else (l, vs))
                        (cols df)\<rparr>)"
proof (induction cs arbitrary: df)
  case Nil
  then show ?case by (simp add: case_prod_beta)
next
  case (Cons c cs)
  from Cons.prems(1) have le: "\<not> 1 < length (filter (\<lambda>l. l = c) (columns df))"
    using count_distinct [of "columns df" c] by simp
  from Cons.prems have d: "distinct (columns (clean_column c df))" "distinct cs" "c \<notin> set cs"
    by (simp_all add: columns_clean_column)
  have "map (\<lambda>(l, vs). if l \<in> set cs then (l, map clean_cell vs) else (l, vs))
          (cols (clean_column c df)) =
        map (\<lambda>(l, vs). if l \<in> set (c # cs) then (l, map clean_cell vs) else (l, vs)) (cols df)"
    using d(3) by (auto simp: clean_column_def)
  with Cons.IH [OF d(1,2)] le show ?case
    by (simp add: clean_column_def)
qed

lemma clean_columns_all:
  assumes "distinct (columns df)"
  shows "clean_columns (columns df) df =
           Inr (df\<lparr>cols := map (\<lambda>(l, vs). (l, map clean_cell vs)) (cols df)\<rparr>)"
proof -
  have "map (\<lambda>(l, vs). if l \<in> set (columns df) then (l, map clean_cell vs) else (l, vs)) (cols df) =
        map (\<lambda>(l, vs). (l, map clean_cell vs)) (cols df)"
    by (rule map_cong) (force simp: columns_def)+
  with clean_columns_distinct [OF assms assms] show ?thesis by simp
qed

lemma clean_columns_cases:
  "clean_columns (columns df) df =
     (if distinct (columns df)
      then Inr (df\<lparr>cols := map (\<lambda>(l, vs). (l, map clean_cell vs)) (cols df)\<rparr>)
      else Inl AttributeError)"
  using clean_columns_all [of df] clean_columns_duplicate [of "columns df" df]
    count_not_distinct [of "columns df"] by auto

lemma fold_ensure_column:
  "\<exists>added. cols (fold ensure_column ns df) = cols df @ added \<and>
           list_all (\<lambda>(l, vs). vs = replicate (nrows df) (PStr []) \<and> l \<in> Name ` set ns) added"
proof (induction ns arbitrary: df)
  case Nil
  show ?case by simp
next
  case (Cons n ns)
  from Cons.IH [of "ensure_column n df"] obtain added where
    a: "cols (fold ensure_column ns (ensure_column n df)) = cols (ensure_column n df) @ added"
       "list_all (\<lambda>(l, vs). vs = replicate (nrows (ensure_column n df)) (PStr []) \<and> l \<in> Name ` set ns) added"
    by blast
  have n: "nrows (ensure_column n df) = nrows df" by (simp add: ensure_column_def)
  from a(2) have a2: "list_all (\<lambda>(l, vs). vs = replicate (nrows df) (PStr []) \<and> l \<in> Name ` set (n # ns)) added"
    unfolding n by (auto simp: list_all_iff)
  show ?case
  proof (cases "Name n \<in> set (columns df)")
    case True
    then have "cols (ensure_column n df) = cols df" by (simp add: ensure_column_def)
    with a(1) have "cols (fold ensure_column (n # ns) df) = cols df @ added" by simp
    with a2 show ?thesis by blast
  next
    case False
    then have "cols (ensure_column n df) = cols df @ [(Name n, replicate (nrows df) (PStr []))]"
      by (simp add: ensure_column_def)
    with a(1) have "cols (fold ensure_column (n # ns) df) =
                 cols df @ ((Name n, replicate (nrows df) (PStr [])) # added)"
      by simp
    moreover from a2 have "list_all (\<lambda>(l, vs). vs = replicate (nrows df) (PStr []) \<and> l \<in> Name ` set (n # ns))
                 ((Name n, replicate (nrows df) (PStr [])) # added)" by simp
    ultimately show ?thesis by blast
  qed
qed

lemma nrows_fold_ensure_column: "nrows (fold ensure_column ns df) = nrows df"
  by (induction ns arbitrary: df) (simp_all add: ensure_column_def)

lemma ensure_column_present: "Name n \<in> set (columns (ensure_column n df))"
  by (simp add: ensure_column_def columns_def)

lemma ensure_column_keeps: "l \<in> set (columns df) \<Longrightarrow> l \<in> set (columns (ensure_column n df))"
  by (simp add: ensure_column_def columns_def)

lemma fold_ensure_column_keeps:
  "l \<in> set (columns df) \<Longrightarrow> l \<in> set (columns (fold ensure_column ns df))"
  by (induction ns arbitrary: df) (simp_all add: ensure_column_keeps)

lemma fold_ensure_column_present:
  "n \<in> set ns \<Longrightarrow> Name n \<in> set (columns (fold ensure_column ns df))"
proof (induction ns arbitrary: df)
  case Nil
  then show ?case by simp
next
  case (Cons m ns)
  show ?case
  proof (cases "n = m")
    case True
    then show ?thesis
      using fold_ensure_column_keeps [OF ensure_column_present, of m ns df] by simp
  next
    case False
    with Cons show ?thesis by simp
  qed
qed

lemma rename_cells: "map snd (cols (rename m df)) = map snd (cols df)"
  by (simp add: rename_def comp_def case_prod_beta)

lemma rename_nrows: "nrows (rename m df) = nrows df"
  by (simp add: rename_def)

lemma standardize_columns_nonempty:
  "\<not> empty d \<Longrightarrow>
   standardize_columns rt (Some d) =
     (if distinct (columns (completed rt d))
      then Inr ((completed rt d)\<lparr>cols := map (\<lambda>(l, vs). (l, map clean_cell vs))
                                           (cols (completed rt d))\<rparr>)
      else Inl AttributeError)"
  by (simp add: standardize_columns_def clean_columns_cases Let_def completed_def)

lemma completed_cols:
  "\<exists>added. cols (completed rt d) = cols (rename (build_mapping rt COL_ALIASES (columns d)) d) @ added \<and>
           list_all (\<lambda>(l, vs). vs = replicate (nrows d) (PStr []) \<and>
                       l \<in> Name ` set (set_iter rt (DISPLAY_ORDER @ [str ''productos'']))) added"
  using fold_ensure_column [of "set_iter rt (DISPLAY_ORDER @ [str ''productos''])"
      "rename (build_mapping rt COL_ALIASES (columns d)) d"]
  by (simp add: completed_def rename_nrows)

lemma completed_nrows: "nrows (completed rt d) = nrows d"
  by (simp add: completed_def nrows_fold_ensure_column rename_nrows)

lemma build_mapping_range_aux:
  "fold (\<lambda>(target, variants) mapping.
           case first_found m (set_iter rt variants) of
             None \<Rightarrow> mapping
           | Some found \<Rightarrow> mapping(found \<mapsto> target)) al m0 l = Some t \<Longrightarrow>
   m0 l = Some t \<or> t \<in> fst ` set al"
proof (induction al arbitrary: m0)
  case Nil
  then show ?case by simp
next
  case (Cons a al)
  obtain target variants where a: "a = (target, variants)" by (cases a)
  show ?case
  proof (cases "first_found m (set_iter rt variants)")
    case None
    with Cons.prems a have "fold (\<lambda>(target, variants) mapping.
           case first_found m (set_iter rt variants) of
             None \<Rightarrow> mapping
           | Some found \<Rightarrow> mapping(found \<mapsto> target)) al m0 l = Some t" by simp
    from Cons.IH [OF this] show ?thesis by auto
  next
    case (Some found)
    with Cons.prems a have "fold (\<lambda>(target, variants) mapping.
           case first_found m (set_iter rt variants) of
             None \<Rightarrow> mapping
           | Some found \<Rightarrow> mapping(found \<mapsto> target)) al (m0(found \<mapsto> target)) l = Some t" by simp
    from Cons.IH [OF this] a show ?thesis by (auto split: if_splits)
  qed
qed

lemma build_mapping_range: "build_mapping rt al cs l = Some t \<Longrightarrow> t \<in> fst ` set al"
  using build_mapping_range_aux [of "cols_norm rt cs" rt al Map.empty l t]
  by (simp add: build_mapping_def)

lemma clean_cell_empty: "clean_cell (PStr []) = PStr []"
  by (simp add: clean_cell_def strip_def)

text \<open>
  Claim C10. When \<open>standardize_columns\<close> returns for a non-empty, well-formed sheet, the
  result has as many rows as the sheet. Every column of the sheet is still there, at its
  place, under its own label or under a canonical name; the columns after them are new.
  Row by row, the cells under the sheet's columns are the cleaned cells of the same row of
  the sheet (null replaced by the empty string, the text trimmed), and the cells under the
  new columns are empty strings: no row is added, dropped or moved.
\<close>

theorem standardize_columns_keeps_rows:
  "\<not> empty d \<and> wf d \<and> standardize_columns rt (Some d) = Inr out \<longrightarrow>
     nrows out = nrows d \<and> wf out \<and> length (cols d) \<le> length (cols out) \<and>
     list_all2 (\<lambda>l l'. l' = l \<or> l' \<in> Name ` fst ` set COL_ALIASES)
       (columns d) (take (length (cols d)) (columns out)) \<and>
     (\<forall>i<nrows d.
        take (length (cols d)) (row_at out i) = map clean_cell (row_at d i) \<and>
        list_all (\<lambda>v. v = PStr []) (drop (length (cols d)) (row_at out i)))"
proof (intro impI)
  assume h: "\<not> empty d \<and> wf d \<and> standardize_columns rt (Some d) = Inr out"
  define mp where "mp = build_mapping rt COL_ALIASES (columns d)"
  define cl where "cl = (\<lambda>(l :: label, vs). (l, map clean_cell vs))"
  from h have ne: "\<not> empty d" and s: "standardize_columns rt (Some d) = Inr out" by simp_all
  from s have out: "out = (completed rt d)\<lparr>cols := map cl (cols (completed rt d))\<rparr>"
    unfolding standardize_columns_nonempty [OF ne] cl_def by (auto split: if_splits)
  obtain added where added: "cols (completed rt d) = cols (rename mp d) @ added"
    "list_all (\<lambda>(l, vs). vs = replicate (nrows d) (PStr []) \<and>
                       l \<in> Name ` set (set_iter rt (DISPLAY_ORDER @ [str ''productos'']))) added"
    using completed_cols [of rt d] unfolding mp_def by blast
  have len: "length (cols (rename mp d)) = length (cols d)" by (simp add: rename_def)
  have cols_out: "cols out = map cl (cols (rename mp d)) @ map cl added"
    using out added by simp
  have n: "nrows out = nrows d" using out by (simp add: completed_nrows)
  from h have wfd: "\<forall>(l, vs)\<in>set (cols d). length vs = nrows d"
    by (simp add: wf_def list_all_iff)
  have wf_out: "wf out"
    using wfd added(2) unfolding wf_def cols_out n
    by (auto simp: list_all_iff cl_def rename_def)
  have labels: "list_all2 (\<lambda>l l'. l' = l \<or> l' \<in> Name ` fst ` set COL_ALIASES)
       (columns d) (take (length (cols d)) (columns out))"
  proof -
    have "take (length (cols d)) (columns out) =
          map (\<lambda>l. case mp l of None \<Rightarrow> l | Some t \<Rightarrow> Name t) (columns d)"
      unfolding columns_def cols_out
      by (simp add: len [symmetric] cl_def comp_def case_prod_beta) (simp add: rename_def comp_def case_prod_beta)
    moreover have "list_all2 (\<lambda>l l'. l' = l \<or> l' \<in> Name ` fst ` set COL_ALIASES) (columns d)
          (map (\<lambda>l. case mp l of None \<Rightarrow> l | Some t \<Rightarrow> Name t) (columns d))"
      unfolding list_all2_map2
      by (rule list_all2_refl) (auto simp: mp_def split: option.splits dest: build_mapping_range)
    ultimately show ?thesis by simp
  qed
  have rows: "take (length (cols d)) (row_at out i) = map clean_cell (row_at d i) \<and>
        list_all (\<lambda>v. v = PStr []) (drop (length (cols d)) (row_at out i))" if i: "i < nrows d" for i
  proof -
    have r: "row_at out i = map (\<lambda>(l, vs). vs ! i) (map cl (cols (rename mp d))) @
                            map (\<lambda>(l, vs). vs ! i) (map cl added)"
      by (simp add: row_at_def cols_out)
    have 1: "map (\<lambda>(l, vs). vs ! i) (map cl (cols (rename mp d))) = map clean_cell (row_at d i)"
    proof -
      have "map (\<lambda>(l, vs). vs ! i) (map cl (cols (rename mp d))) =
            map (\<lambda>vs. map clean_cell vs ! i) (map snd (cols (rename mp d)))"
        by (simp add: cl_def comp_def case_prod_beta)
      also have "\<dots> = map (\<lambda>vs. map clean_cell vs ! i) (map snd (cols d))"
        by (simp only: rename_cells)
      also have "\<dots> = map clean_cell (row_at d i)"
        using wfd i by (auto simp: row_at_def)
      finally show ?thesis .
    qed
    have 2: "list_all (\<lambda>v. v = PStr []) (map (\<lambda>(l, vs). vs ! i) (map cl added))"
      using added(2) i by (auto simp: list_all_iff cl_def clean_cell_empty)
    have l: "length (map (\<lambda>(l, vs). vs ! i) (map cl (cols (rename mp d)))) = length (cols d)"
      by (simp add: len)
    from r 1 2 l show ?thesis by simp
  qed
  from n wf_out cols_out len labels rows
  show "nrows out = nrows d \<and> wf out \<and> length (cols d) \<le> length (cols out) \<and>
     list_all2 (\<lambda>l l'. l' = l \<or> l' \<in> Name ` fst ` set COL_ALIASES)
       (columns d) (take (length (cols d)) (columns out)) \<and>
     (\<forall>i<nrows d.
        take (length (cols d)) (row_at out i) = map clean_cell (row_at d i) \<and>
        list_all (\<lambda>v. v = PStr []) (drop (length (cols d)) (row_at out i)))"
    by simp
qed

lemma replicate_numeral: "replicate (numeral k) x = x # replicate (pred_numeral k) x"
  by (simp add: numeral_eq_Suc)

lemma sample_standardized: "standardize_columns rt0 (Some sample_sheet) = Inr sample_standard"
  unfolding standardize_columns_def Let_def
  by (simp add: std_eval sample_sheet_def sample_standard_def replicate_numeral)

text \<open>
  Claim C10 on the sample sheet: two rows in, two rows out, and the second row keeps its
  cells, cleaned, under the three columns of the sheet.
\<close>

theorem standardize_columns_keeps_rows_witness:
  "\<not> empty sample_sheet \<and> wf sample_sheet \<and>
   standardize_columns rt0 (Some sample_sheet) = Inr sample_standard \<and>
   nrows sample_standard = nrows sample_sheet \<and>
   take 3 (row_at sample_standard 1) = map clean_cell (row_at sample_sheet 1) \<and>
   row_at sample_standard 1 =
     [PStr (str ''Cobres Sur''), PStr [], PStr (str ''7''), PStr [], PStr [], PStr [], PStr [],
      PStr [], PStr [], PStr []]"
proof -
  have e: "\<not> empty sample_sheet" by (simp add: empty_def sample_sheet_def)
  have w: "wf sample_sheet" by (simp add: wf_def sample_sheet_def)
  have l: "length (cols sample_sheet) = 3" "(1::nat) < nrows sample_sheet" by (simp_all add: sample_sheet_def)
  have r: "row_at sample_standard 1 =
     [PStr (str ''Cobres Sur''), PStr [], PStr (str ''7''), PStr [], PStr [], PStr [], PStr [],
      PStr [], PStr [], PStr []]"
    by (simp add: row_at_def sample_standard_def)
  from standardize_columns_keeps_rows [of sample_sheet rt0 sample_standard] e w sample_standardized
  have "nrows sample_standard = nrows sample_sheet"
    "\<forall>i<nrows sample_sheet. take (length (cols sample_sheet)) (row_at sample_standard i) = map clean_cell (row_at sample_sheet i)"
    by simp_all
  with l have "nrows sample_standard = nrows sample_sheet"
    "take 3 (row_at sample_standard 1) = map clean_cell (row_at sample_sheet 1)"
    by auto
  with e w sample_standardized r show ?thesis by simp
qed
section \<open>The CSV export\<close>

lemma filter_label_distinct:
  "distinct (map fst xs) \<Longrightarrow> (l, vs) \<in> set xs \<Longrightarrow> filter (\<lambda>(l', vs'). l' = l) xs = [(l, vs)]"
proof (induction xs)
  case Nil
  then show ?case by simp
next
  case (Cons a xs)
  show ?case
  proof (cases "fst a = l")
    case True
    with Cons.prems have "l \<notin> fst ` set xs" by auto
    then have "filter (\<lambda>(l', vs'). l' = l) xs = []" by (force simp: filter_empty_conv)
    moreover from True Cons.prems have "a = (l, vs)" by (cases a) force
    ultimately show ?thesis by simp
  next
    case False
    with Cons show ?thesis by (auto simp: case_prod_beta)
  qed
qed

lemma getitem_distinct:
  "distinct (columns df) \<Longrightarrow> (l, vs) \<in> set (cols df) \<Longrightarrow> getitem df l = Inr vs"
  by (simp add: getitem_def columns_def filter_label_distinct)

lemma getitem_member: "getitem df l = Inr vs \<Longrightarrow> (l, vs) \<in> set (cols df)"
proof -
  assume g: "getitem df l = Inr vs"
  then have "filter (\<lambda>(l', vs'). l' = l) (cols df) = [(l, vs)]"
    by (auto simp: getitem_def split: list.splits dest: filter_eq_ConsD)
  then have "(l, vs) \<in> set (filter (\<lambda>(l', vs'). l' = l) (cols df))" by simp
  then show ?thesis by simp
qed

lemma loc_cols:
  assumes "loc keep names df = Inr res" "distinct (columns df)"
  shows "nrows res = length (filter id keep) \<and>
         list_all2 (\<lambda>n (l, vs). l = Name n \<and> (\<exists>ws. (Name n, ws) \<in> set (cols df) \<and> vs = select keep ws))
           names (cols res)"
proof -
  from assms(1) have all: "\<forall>n\<in>set names. Name n \<in> set (columns df)"
    and res: "res = \<lparr>nrows = length (filter id keep),
                cols = concat (map (\<lambda>n. map (\<lambda>(l, vs). (l, select keep vs))
                                           (filter (\<lambda>(l, vs). l = Name n) (cols df)))
                                 names)\<rparr>"
    by (auto simp: loc_def list_ex_iff split: if_splits)
  have one: "\<exists>ws. (Name n, ws) \<in> set (cols df) \<and>
               map (\<lambda>(l, vs). (l, select keep vs)) (filter (\<lambda>(l, vs). l = Name n) (cols df)) =
               [(Name n, select keep ws)]" if "n \<in> set names" for n
  proof -
    from all that obtain ws where ws: "(Name n, ws) \<in> set (cols df)"
      by (auto simp: columns_def)
    with assms(2) have "filter (\<lambda>(l, vs). l = Name n) (cols df) = [(Name n, ws)]"
      by (simp add: columns_def filter_label_distinct)
    with ws show ?thesis by auto
  qed
  have "list_all2 (\<lambda>n (l, vs). l = Name n \<and> (\<exists>ws. (Name n, ws) \<in> set (cols df) \<and> vs = select keep ws))
           ns (concat (map (\<lambda>n. map (\<lambda>(l, vs). (l, select keep vs))
                                           (filter (\<lambda>(l, vs). l = Name n) (cols df))) ns))"
    if "set ns \<subseteq> set names" for ns
    using that
  proof (induction ns)
    case Nil
    show ?case by simp
  next
    case (Cons n ns)
    from Cons.prems one [of n] obtain ws where "(Name n, ws) \<in> set (cols df)"
      "map (\<lambda>(l, vs). (l, select keep vs)) (filter (\<lambda>(l, vs). l = Name n) (cols df)) =
               [(Name n, select keep ws)]" by auto
    with Cons show ?case by auto
  qed
  from this [of names] res show ?thesis by simp
qed

lemma standardize_columns_distinct:
  assumes "\<not> empty d" "standardize_columns rt (Some d) = Inr out"
  shows "distinct (columns out)"
proof -
  from assms(2) have "distinct (columns (completed rt d))"
    and "out = (completed rt d)\<lparr>cols := map (\<lambda>(l, vs). (l, map clean_cell vs)) (cols (completed rt d))\<rparr>"
    unfolding standardize_columns_nonempty [OF assms(1)] by (auto split: if_splits)
  then show ?thesis by (simp add: columns_def comp_def case_prod_beta)
qed

lemma render_download:
  "render rt c ts res = Rendered p \<Longrightarrow> download p = Some (name, data) \<Longrightarrow>
   \<not> empty res \<and> name = file_name c \<and> encode_utf_8_sig (to_csv rt res) = Inr data"
  by (auto simp: render_def split: if_splits sum.splits)

lemma encode_utf_8_sig_bom:
  "encode_utf_8_sig s = Inr data \<Longrightarrow> \<exists>body. utf8 s = Inr body \<and> data = [0xEF, 0xBB, 0xBF] @ body"
  by (auto simp: encode_utf_8_sig_def BOM_UTF8_def split: sum.splits)

lemma list_all2_labels:
  "list_all2 (\<lambda>n (l, vs). l = Name n \<and> Q n vs) names cs \<Longrightarrow> map fst cs = map Name names"
  by (induction names cs rule: list_all2_induct) auto

lemma list_all2_member:
  "list_all2 P xs ys \<Longrightarrow> x \<in> set xs \<Longrightarrow> \<exists>y\<in>set ys. P x y"
  by (induction xs ys rule: list_all2_induct) auto

lemma distinct_display: "distinct (map Name DISPLAY_ORDER)"
  by (simp add: DISPLAY_ORDER_def)

text \<open>
  Claim C6. When the page offers a download, the file is named \<open>proveedores_\<close>, the selected
  country, \<open>.csv\<close>; its content is the byte-order mark EF BB BF followed by the UTF-8
  encoding of the CSV text; the CSV text is a header line of the eight display columns
  (\<open>productos\<close> is not one of them) and one line of eight fields for every row of the
  results; and the results hold, under each display column, the cells of that column of
  the standardised sheet in the rows whose \<open>productos\<close> cell matches the terms of the
  query, in their order.
\<close>

theorem csv_export:
  "app rt raw country q = Rendered p \<and> download p = Some (name, data) \<longrightarrow>
     name = str ''proveedores_'' @ country @ str ''.csv'' \<and>
     (\<exists>body. utf8 (to_csv rt (results p)) = Inr body \<and> data = [0xEF, 0xBB, 0xBF] @ body) \<and>
     to_csv rt (results p) =
       csv_line rt DISPLAY_ORDER @
       concat (map (\<lambda>i. csv_line rt (map csv_field (row_at (results p) i)))
                 [0..<nrows (results p)]) \<and>
     columns (results p) = map Name DISPLAY_ORDER \<and> length DISPLAY_ORDER = 8 \<and>
     (\<forall>i. length (row_at (results p) i) = 8) \<and>
     str ''productos'' \<notin> set DISPLAY_ORDER \<and>
     terms p = query_terms rt q \<and>
     (\<exists>df col. standardize_columns rt raw = Inr df \<and>
        getitem df (Name (str ''productos'')) = Inr col \<and>
        nrows (results p) = length (filter id (mask_of rt col (terms p))) \<and>
        (\<forall>n\<in>set DISPLAY_ORDER. \<exists>vs. getitem df (Name n) = Inr vs \<and>
            getitem (results p) (Name n) = Inr (select (mask_of rt col (terms p)) vs)))"
proof (intro impI)
  assume h: "app rt raw country q = Rendered p \<and> download p = Some (name, data)"
  define ts where "ts = query_terms rt q"
  from h app_rendered [of rt raw country q p] obtain d df where
    d: "raw = Some d" "\<not> empty d" and df: "standardize_columns rt raw = Inr df"
    and s: "search rt df ts = Inr (results p)"
    and r: "render rt country ts (results p) = Rendered p"
    unfolding ts_def by blast
  from render_message [OF r] have tp: "terms p = ts" by simp
  from h render_download [OF r] have ne: "\<not> empty (results p)" and nm: "name = file_name country"
    and enc: "encode_utf_8_sig (to_csv rt (results p)) = Inr data" by simp_all
  from df d have dist: "distinct (columns df)" using standardize_columns_distinct by simp
  have "ts \<noteq> []"
  proof
    assume "ts = []"
    with s have "results p = empty_frame DISPLAY_ORDER" by (simp add: search_def)
    with ne show False by (simp add: empty_def empty_frame_def)
  qed
  with s obtain col where col: "getitem df (Name (str ''productos'')) = Inr col"
    and l: "loc (mask_of rt col ts) DISPLAY_ORDER df = Inr (results p)"
    by (auto simp: search_def split: sum.splits)
  from loc_cols [OF l dist] have nr: "nrows (results p) = length (filter id (mask_of rt col ts))"
    and la: "list_all2 (\<lambda>n (l, vs). l = Name n \<and>
               (\<exists>ws. (Name n, ws) \<in> set (cols df) \<and> vs = select (mask_of rt col ts) ws))
             DISPLAY_ORDER (cols (results p))" by simp_all
  from list_all2_labels [OF la] have cs: "columns (results p) = map Name DISPLAY_ORDER"
    by (simp add: columns_def)
  have cells: "\<exists>vs. getitem df (Name n) = Inr vs \<and>
            getitem (results p) (Name n) = Inr (select (mask_of rt col ts) vs)"
    if "n \<in> set DISPLAY_ORDER" for n
  proof -
    from list_all2_member [OF la that] obtain l vs ws where
      m: "(l, vs) \<in> set (cols (results p))" "l = Name n" "(Name n, ws) \<in> set (cols df)"
         "vs = select (mask_of rt col ts) ws" by auto
    from getitem_distinct [OF dist m(3)] have "getitem df (Name n) = Inr ws" .
    moreover from m cs distinct_display
    have "getitem (results p) (Name n) = Inr (select (mask_of rt col ts) ws)"
      by (simp add: getitem_distinct)
    ultimately show ?thesis by blast
  qed
  have csv: "to_csv rt (results p) =
       csv_line rt DISPLAY_ORDER @
       concat (map (\<lambda>i. csv_line rt (map csv_field (row_at (results p) i)))
                 [0..<nrows (results p)])"
    by (simp add: to_csv_def cs comp_def)
  have k: "length DISPLAY_ORDER = 8" "str ''productos'' \<notin> set DISPLAY_ORDER"
    by (simp_all add: DISPLAY_ORDER_def)
  from cs have "length (cols (results p)) = length DISPLAY_ORDER"
    by (metis columns_def length_map)
  with k(1) have w: "\<forall>i. length (row_at (results p) i) = 8" by (simp add: row_at_def)
  from nm have name: "name = str ''proveedores_'' @ country @ str ''.csv''"
    by (simp add: file_name_def)
  have "standardize_columns rt raw = Inr df \<and>
        getitem df (Name (str ''productos'')) = Inr col \<and>
        nrows (results p) = length (filter id (mask_of rt col (terms p))) \<and>
        (\<forall>n\<in>set DISPLAY_ORDER. \<exists>vs. getitem df (Name n) = Inr vs \<and>
            getitem (results p) (Name n) = Inr (select (mask_of rt col (terms p)) vs))"
    using df col nr cells unfolding tp by blast
  then have ex: "\<exists>df col. standardize_columns rt raw = Inr df \<and>
        getitem df (Name (str ''productos'')) = Inr col \<and>
        nrows (results p) = length (filter id (mask_of rt col (terms p))) \<and>
        (\<forall>n\<in>set DISPLAY_ORDER. \<exists>vs. getitem df (Name n) = Inr vs \<and>
            getitem (results p) (Name n) = Inr (select (mask_of rt col (terms p)) vs))"
    by blast
  from tp have tq: "terms p = query_terms rt q" by (simp add: ts_def)
  from name encode_utf_8_sig_bom [OF enc] csv cs k(1) w k(2) tq ex
  show "name = str ''proveedores_'' @ country @ str ''.csv'' \<and>
     (\<exists>body. utf8 (to_csv rt (results p)) = Inr body \<and> data = [0xEF, 0xBB, 0xBF] @ body) \<and>
     to_csv rt (results p) =
       csv_line rt DISPLAY_ORDER @
       concat (map (\<lambda>i. csv_line rt (map csv_field (row_at (results p) i)))
                 [0..<nrows (results p)]) \<and>
     columns (results p) = map Name DISPLAY_ORDER \<and> length DISPLAY_ORDER = 8 \<and>
     (\<forall>i. length (row_at (results p) i) = 8) \<and>
     str ''productos'' \<notin> set DISPLAY_ORDER \<and>
     terms p = query_terms rt q \<and>
     (\<exists>df col. standardize_columns rt raw = Inr df \<and>
        getitem df (Name (str ''productos'')) = Inr col \<and>
        nrows (results p) = length (filter id (mask_of rt col (terms p))) \<and>
        (\<forall>n\<in>set DISPLAY_ORDER. \<exists>vs. getitem df (Name n) = Inr vs \<and>
            getitem (results p) (Name n) = Inr (select (mask_of rt col (terms p)) vs)))"
    by - (intro conjI, assumption+)
qed

lemma sample_export:
  "case app rt0 (Some sample_sheet) (str ''Argentina'') (str ''malta'') of
     Rendered p \<Rightarrow> download p = Some (str ''proveedores_Argentina.csv'', [0xEF, 0xBB, 0xBF] @ map of_nat sample_csv) \<and>
                   message p = Found 1
   | _ \<Rightarrow> False"
  unfolding app_def sample_standardized
  by (simp add: std_eval app_eval sample_sheet_def sample_standard_def sample_csv_def)

text \<open>
  Claim C6 on the sample sheet, the country "Argentina" and the query "malta": one supplier
  matches, and the file \<open>proveedores_Argentina.csv\<close> holds the header line and its line.
\<close>

theorem csv_export_witness:
  "\<exists>p. app rt0 (Some sample_sheet) (str ''Argentina'') (str ''malta'') = Rendered p \<and>
       download p = Some (str ''proveedores_Argentina.csv'', [0xEF, 0xBB, 0xBF] @ map of_nat sample_csv) \<and>
       columns (results p) = map Name DISPLAY_ORDER \<and>
       getitem (results p) (Name (str ''nombre'')) = Inr [PStr (str ''Lata, S.A.'')] \<and>
       nrows (results p) = 1"
proof -
  from sample_export obtain p where
    p: "app rt0 (Some sample_sheet) (str ''Argentina'') (str ''malta'') = Rendered p"
       "download p = Some (str ''proveedores_Argentina.csv'', [0xEF, 0xBB, 0xBF] @ map of_nat sample_csv)"
    by (auto split: outcome.splits)
  from csv_export [of rt0 "Some sample_sheet" "str ''Argentina''" "str ''malta''" p
      "str ''proveedores_Argentina.csv''" "[0xEF, 0xBB, 0xBF] @ map of_nat sample_csv"] p
  obtain df col where c: "columns (results p) = map Name DISPLAY_ORDER"
    "terms p = query_terms rt0 (str ''malta'')"
    "standardize_columns rt0 (Some sample_sheet) = Inr df"
    "getitem df (Name (str ''productos'')) = Inr col"
    "nrows (results p) = length (filter id (mask_of rt0 col (terms p)))"
    "\<forall>n\<in>set DISPLAY_ORDER. \<exists>vs. getitem df (Name n) = Inr vs \<and>
            getitem (results p) (Name n) = Inr (select (mask_of rt0 col (terms p)) vs)"
    by blast
  from c(3) have df: "df = sample_standard" by (simp add: sample_standardized)
  from c(4) have col: "col = [PStr (str ''Latas, tapas, malta''), PStr []]"
    by (simp add: df getitem_def sample_standard_def)
  have m: "mask_of rt0 col (terms p) = [True, False]"
    unfolding c(2) col by (simp add: app_eval std_eval)
  have "str ''nombre'' \<in> set DISPLAY_ORDER" by (simp add: DISPLAY_ORDER_def)
  with c(6) obtain vs where v1: "getitem df (Name (str ''nombre'')) = Inr vs"
    and v2: "getitem (results p) (Name (str ''nombre'')) = Inr (select (mask_of rt0 col (terms p)) vs)"
    by blast
  from v1 have vs: "vs = [PStr (str ''Lata, S.A.''), PStr (str ''Cobres Sur'')]"
    unfolding df by (simp add: getitem_def sample_standard_def)
  from v2 have "getitem (results p) (Name (str ''nombre'')) = Inr [PStr (str ''Lata, S.A.'')]"
    unfolding m vs by (simp add: select_def)
  with p c(1) c(5) m show ?thesis by auto
qed
section \<open>Headers the aliaser mishandles\<close>

lemma iterates_sets_rt0: "iterates_sets rt0"
  by (simp add: iterates_sets_def rt0_def declaration_order_def)

lemma iterates_sets_rt1: "iterates_sets rt1"
  by (simp add: iterates_sets_def rt1_def rt0_def declaration_order_def)

lemma first_found_single:
  "first_found (Map.empty(k \<mapsto> c)) vs = (if k \<in> set vs then Some c else None)"
  by (induction vs) auto

lemmas col_eval = strip_def isspace_def lower_def ascii_lower_def

lemma cols_norm_duplicate:
  "cols_norm rt (columns duplicate_sheet) = Map.empty(str ''nombre'' \<mapsto> Name (str ''Nombre''))"
  by (simp add: cols_norm_def columns_def duplicate_sheet_def col_eval)

lemma build_mapping_duplicate:
  assumes "iterates_sets rt"
  shows "build_mapping rt COL_ALIASES (columns duplicate_sheet) =
           Map.empty(Name (str ''Nombre'') \<mapsto> str ''nombre'')"
proof -
  from assms have s: "set (set_iter rt xs) = set xs" for xs by (simp add: iterates_sets_def)
  show ?thesis
    unfolding build_mapping_def cols_norm_duplicate first_found_single s
    by (simp add: COL_ALIASES_def)
qed

lemma completed_prefix:
  "\<exists>more. columns (completed rt d) =
     map (\<lambda>l. case build_mapping rt COL_ALIASES (columns d) l of None \<Rightarrow> l | Some t \<Rightarrow> Name t) (columns d) @ more"
proof -
  from completed_cols [of rt d] obtain added where
    "cols (completed rt d) = cols (rename (build_mapping rt COL_ALIASES (columns d)) d) @ added"
    by blast
  then have "columns (completed rt d) =
     map (\<lambda>l. case build_mapping rt COL_ALIASES (columns d) l of None \<Rightarrow> l | Some t \<Rightarrow> Name t) (columns d) @ map fst added"
    by (simp add: columns_def rename_def comp_def case_prod_beta)
  then show ?thesis by blast
qed

text \<open>
  Claim C3 fails at the sheet with the headers "nombre" and "Nombre": whatever the order in
  which the sets are iterated, the second column is renamed to "nombre", the frame then has
  two columns of that name, and the clean-up loop raises \<open>AttributeError\<close>.
\<close>

theorem duplicate_header_raises:
  "iterates_sets rt \<longrightarrow> standardize_columns rt (Some duplicate_sheet) = Inl AttributeError"
proof
  assume it: "iterates_sets rt"
  have ne: "\<not> empty duplicate_sheet" by (simp add: empty_def duplicate_sheet_def)
  from completed_prefix [of rt duplicate_sheet] obtain more where
    "columns (completed rt duplicate_sheet) =
       map (\<lambda>l. case build_mapping rt COL_ALIASES (columns duplicate_sheet) l of
                  None \<Rightarrow> l | Some t \<Rightarrow> Name t) (columns duplicate_sheet) @ more" by blast
  then have "columns (completed rt duplicate_sheet) =
       [Name (str ''nombre''), Name (str ''nombre'')] @ more"
    unfolding build_mapping_duplicate [OF it] by (simp add: columns_def duplicate_sheet_def)
  then have "\<not> distinct (columns (completed rt duplicate_sheet))" by simp
  then show "standardize_columns rt (Some duplicate_sheet) = Inl AttributeError"
    by (simp add: standardize_columns_nonempty [OF ne])
qed

text \<open>The failure of claim C3 on the concrete runtime.\<close>

theorem duplicate_header_raises_witness:
  "iterates_sets rt0 \<and> standardize_columns rt0 (Some duplicate_sheet) = Inl AttributeError"
  using duplicate_header_raises [of rt0] iterates_sets_rt0 by simp

lemma fold_ensure_column_exact:
  "distinct ns \<Longrightarrow>
   cols (fold ensure_column ns df) =
     cols df @ map (\<lambda>n. (Name n, replicate (nrows df) (PStr [])))
                 (filter (\<lambda>n. Name n \<notin> set (columns df)) ns)"
proof (induction ns arbitrary: df)
  case Nil
  show ?case by simp
next
  case (Cons n ns)
  from Cons.prems have d: "distinct ns" and n: "n \<notin> set ns" by simp_all
  show ?case
  proof (cases "Name n \<in> set (columns df)")
    case True
    then have "ensure_column n df = df" by (simp add: ensure_column_def)
    with Cons.IH [OF d, of df] True show ?thesis by simp
  next
    case False
    define df' where "df' = ensure_column n df"
    from False have c: "cols df' = cols df @ [(Name n, replicate (nrows df) (PStr []))]"
      and r: "nrows df' = nrows df"
      by (simp_all add: df'_def ensure_column_def)
    from c have cs: "columns df' = columns df @ [Name n]" by (simp add: columns_def)
    have "filter (\<lambda>m. Name m \<notin> set (columns df')) ns = filter (\<lambda>m. Name m \<notin> set (columns df)) ns"
      using n unfolding cs by (intro filter_cong) auto
    with Cons.IH [OF d, of df'] c r False show ?thesis
      by (simp add: df'_def)
  qed
qed

lemma cols_norm_slash:
  "cols_norm rt (columns slash_sheet) =
     Map.empty(str ''provincia /estado'' \<mapsto> Name (str ''provincia/estado''))"
  by (simp add: cols_norm_def columns_def slash_sheet_def col_eval)

lemma build_mapping_slash:
  assumes "iterates_sets rt"
  shows "build_mapping rt COL_ALIASES (columns slash_sheet) = Map.empty"
proof -
  from assms have s: "set (set_iter rt xs) = set xs" for xs by (simp add: iterates_sets_def)
  show ?thesis
    unfolding build_mapping_def cols_norm_slash first_found_single s
    by (simp add: COL_ALIASES_def)
qed

text \<open>
  Claim C1 fails at the variants written with a slash. The normaliser turns "/" into " /",
  so the header "provincia/estado" gets the key "provincia /estado" and "telefono/whatsapp"
  the key "telefono /whatsapp", and neither key is a variant of the dictionary. Whatever the
  order in which the sets are iterated, the sheet whose header is "provincia/estado" keeps
  that column under its own name, and the canonical column "provincia / estado" is created
  empty beside it.
\<close>

theorem slash_variant_not_renamed:
  "iterates_sets rt \<longrightarrow>
     normalize_col rt (Name (str ''provincia/estado'')) = str ''provincia /estado'' \<and>
     normalize_col rt (Name (str ''telefono/whatsapp'')) = str ''telefono /whatsapp'' \<and>
     str ''provincia /estado'' \<notin> set (concat (map snd COL_ALIASES)) \<and>
     str ''telefono /whatsapp'' \<notin> set (concat (map snd COL_ALIASES)) \<and>
     (\<exists>out. standardize_columns rt (Some slash_sheet) = Inr out \<and>
            getitem out (Name (str ''provincia/estado'')) = Inr [PStr (str ''Mendoza'')] \<and>
            getitem out (Name (str ''provincia / estado'')) = Inr [PStr []])"
proof
  assume it: "iterates_sets rt"
  define ns where "ns = set_iter rt (DISPLAY_ORDER @ [str ''productos''])"
  from it have ns: "distinct ns" "set ns = set (DISPLAY_ORDER @ [str ''productos''])"
    by (simp_all add: ns_def iterates_sets_def)
  have ne: "\<not> empty slash_sheet" by (simp add: empty_def slash_sheet_def)
  have "rename (build_mapping rt COL_ALIASES (columns slash_sheet)) slash_sheet = slash_sheet"
    unfolding build_mapping_slash [OF it] by (simp add: rename_def slash_sheet_def)
  then have c: "completed rt slash_sheet = fold ensure_column ns slash_sheet"
    by (simp add: completed_def ns_def)
  have absent: "filter (\<lambda>n. Name n \<notin> set (columns slash_sheet)) ns = ns"
    using ns(2) by (auto simp: filter_id_conv columns_def slash_sheet_def DISPLAY_ORDER_def)
  from fold_ensure_column_exact [OF ns(1), of slash_sheet]
  have cc: "cols (completed rt slash_sheet) =
          (Name (str ''provincia/estado''), [PStr (str ''Mendoza'')]) #
          map (\<lambda>n. (Name n, [PStr []])) ns"
    unfolding c absent by (simp add: slash_sheet_def)
  have "str ''provincia/estado'' \<notin> set ns"
    unfolding ns(2) by (simp add: DISPLAY_ORDER_def)
  with ns(1) have dist: "distinct (columns (completed rt slash_sheet))"
    unfolding columns_def cc by (auto simp: comp_def distinct_map inj_on_def)
  define out where "out = (completed rt slash_sheet)\<lparr>cols := map (\<lambda>(l, vs). (l, map clean_cell vs))
                                           (cols (completed rt slash_sheet))\<rparr>"
  from dist have s: "standardize_columns rt (Some slash_sheet) = Inr out"
    by (simp add: standardize_columns_nonempty [OF ne] out_def)
  have co: "cols out = (Name (str ''provincia/estado''), [PStr (str ''Mendoza'')]) #
          map (\<lambda>n. (Name n, [PStr []])) ns"
    unfolding out_def cc by (simp add: comp_def clean_cell_def strip_def isspace_def)
  from dist have dout: "distinct (columns out)"
    by (simp add: out_def columns_def comp_def case_prod_beta)
  have "str ''provincia / estado'' \<in> set ns"
    unfolding ns(2) by (simp add: DISPLAY_ORDER_def)
  then have m: "(Name (str ''provincia / estado''), [PStr []]) \<in> set (cols out)"
    unfolding co by auto
  have g1: "getitem out (Name (str ''provincia/estado'')) = Inr [PStr (str ''Mendoza'')]"
    by (rule getitem_distinct [OF dout]) (simp add: co)
  have g2: "getitem out (Name (str ''provincia / estado'')) = Inr [PStr []]"
    by (rule getitem_distinct [OF dout m])
  have n1: "normalize_col rt (Name (str ''provincia/estado'')) = str ''provincia /estado''"
    by (simp add: col_eval)
  have n2: "normalize_col rt (Name (str ''telefono/whatsapp'')) = str ''telefono /whatsapp''"
    by (simp add: col_eval)
  have v: "str ''provincia /estado'' \<notin> set (concat (map snd COL_ALIASES))"
    "str ''telefono /whatsapp'' \<notin> set (concat (map snd COL_ALIASES))"
    by (simp_all add: COL_ALIASES_def)
  from s g1 g2 have "\<exists>out. standardize_columns rt (Some slash_sheet) = Inr out \<and>
            getitem out (Name (str ''provincia/estado'')) = Inr [PStr (str ''Mendoza'')] \<and>
            getitem out (Name (str ''provincia / estado'')) = Inr [PStr []]" by blast
  with n1 n2 v
  show "normalize_col rt (Name (str ''provincia/estado'')) = str ''provincia /estado'' \<and>
     normalize_col rt (Name (str ''telefono/whatsapp'')) = str ''telefono /whatsapp'' \<and>
     str ''provincia /estado'' \<notin> set (concat (map snd COL_ALIASES)) \<and>
     str ''telefono /whatsapp'' \<notin> set (concat (map snd COL_ALIASES)) \<and>
     (\<exists>out. standardize_columns rt (Some slash_sheet) = Inr out \<and>
            getitem out (Name (str ''provincia/estado'')) = Inr [PStr (str ''Mendoza'')] \<and>
            getitem out (Name (str ''provincia / estado'')) = Inr [PStr []])"
    by - (intro conjI, assumption+)
qed

text \<open>The failure of claim C1 on the concrete runtime.\<close>

theorem slash_variant_not_renamed_witness:
  "iterates_sets rt0 \<and>
   (\<exists>out. standardize_columns rt0 (Some slash_sheet) = Inr out \<and>
          getitem out (Name (str ''provincia/estado'')) = Inr [PStr (str ''Mendoza'')] \<and>
          getitem out (Name (str ''provincia / estado'')) = Inr [PStr []])"
  using slash_variant_not_renamed [of rt0] iterates_sets_rt0 by blast
section \<open>Which column is renamed\<close>

lemma cols_norm_snoc: "cols_norm rt (cs @ [c]) = (cols_norm rt cs)(normalize_col rt c \<mapsto> c)"
  by (simp add: cols_norm_def)

lemma cols_norm_None: "cols_norm rt cs v = None \<longleftrightarrow> (\<forall>c\<in>set cs. normalize_col rt c \<noteq> v)"
proof (induction cs rule: rev_induct)
  case Nil
  show ?case by (simp add: cols_norm_def)
next
  case (snoc x xs)
  then show ?case by (auto simp: cols_norm_snoc)
qed

lemma cols_norm_Some:
  "cols_norm rt cs v = Some c \<Longrightarrow>
   \<exists>cs1 cs2. cs = cs1 @ c # cs2 \<and> normalize_col rt c = v \<and> (\<forall>c'\<in>set cs2. normalize_col rt c' \<noteq> v)"
proof (induction cs rule: rev_induct)
  case Nil
  then show ?case by (simp add: cols_norm_def)
next
  case (snoc x xs)
  show ?case
  proof (cases "normalize_col rt x = v")
    case True
    with snoc.prems have "c = x" by (simp add: cols_norm_snoc)
    with True have "xs @ [x] = xs @ c # [] \<and> normalize_col rt c = v \<and>
                    (\<forall>c'\<in>set []. normalize_col rt c' \<noteq> v)" by simp
    then show ?thesis by blast
  next
    case False
    with snoc.prems have "cols_norm rt xs v = Some c" by (simp add: cols_norm_snoc)
    from snoc.IH [OF this] obtain cs1 cs2 where
      "xs = cs1 @ c # cs2" "normalize_col rt c = v" "\<forall>c'\<in>set cs2. normalize_col rt c' \<noteq> v"
      by blast
    with False have "xs @ [x] = cs1 @ c # (cs2 @ [x]) \<and> normalize_col rt c = v \<and>
                     (\<forall>c'\<in>set (cs2 @ [x]). normalize_col rt c' \<noteq> v)" by simp
    then show ?thesis by blast
  qed
qed

lemma first_found_Some:
  "first_found m vs = Some c \<Longrightarrow>
   \<exists>vs1 v vs2. vs = vs1 @ v # vs2 \<and> m v = Some c \<and> (\<forall>v'\<in>set vs1. m v' = None)"
proof (induction vs)
  case Nil
  then show ?case by simp
next
  case (Cons v vs)
  show ?case
  proof (cases "m v")
    case None
    with Cons.prems have "first_found m vs = Some c" by simp
    from Cons.IH [OF this] obtain vs1 w vs2 where
      "vs = vs1 @ w # vs2" "m w = Some c" "\<forall>v'\<in>set vs1. m v' = None" by blast
    with None have "v # vs = (v # vs1) @ w # vs2 \<and> m w = Some c \<and>
                    (\<forall>v'\<in>set (v # vs1). m v' = None)" by simp
    then show ?thesis by blast
  next
    case (Some c')
    with Cons.prems have "v # vs = [] @ v # vs \<and> m v = Some c \<and> (\<forall>v'\<in>set []. m v' = None)"
      by simp
    then show ?thesis by blast
  qed
qed

lemma build_mapping_source_aux:
  "fold (\<lambda>(target, variants) mapping.
           case first_found m (set_iter rt variants) of
             None \<Rightarrow> mapping
           | Some found \<Rightarrow> mapping(found \<mapsto> target)) al m0 l = Some t \<Longrightarrow>
   m0 l = Some t \<or> (\<exists>variants. (t, variants) \<in> set al \<and> first_found m (set_iter rt variants) = Some l)"
proof (induction al arbitrary: m0)
  case Nil
  then show ?case by simp
next
  case (Cons a al)
  obtain target variants where a: "a = (target, variants)" by (cases a)
  show ?case
  proof (cases "first_found m (set_iter rt variants)")
    case None
    with Cons.prems a have "fold (\<lambda>(target, variants) mapping.
           case first_found m (set_iter rt variants) of
             None \<Rightarrow> mapping
           | Some found \<Rightarrow> mapping(found \<mapsto> target)) al m0 l = Some t" by simp
    from Cons.IH [OF this] show ?thesis by auto
  next
    case (Some found)
    with Cons.prems a have "fold (\<lambda>(target, variants) mapping.
           case first_found m (set_iter rt variants) of
             None \<Rightarrow> mapping
           | Some found \<Rightarrow> mapping(found \<mapsto> target)) al (m0(found \<mapsto> target)) l = Some t" by simp
    from Cons.IH [OF this] have
      "(m0(found \<mapsto> target)) l = Some t \<or>
       (\<exists>variants. (t, variants) \<in> set al \<and> first_found m (set_iter rt variants) = Some l)" .
    then show ?thesis
    proof
      assume u: "(m0(found \<mapsto> target)) l = Some t"
      show ?thesis
      proof (cases "l = found")
        case True
        with u have "t = target" by simp
        with True Some a show ?thesis by auto
      next
        case False
        with u show ?thesis by simp
      qed
    next
      assume "\<exists>variants. (t, variants) \<in> set al \<and> first_found m (set_iter rt variants) = Some l"
      then show ?thesis by auto
    qed
  qed
qed

lemma build_mapping_source:
  "build_mapping rt al cs l = Some t \<Longrightarrow>
   \<exists>variants. (t, variants) \<in> set al \<and> first_found (cols_norm rt cs) (set_iter rt variants) = Some l"
  using build_mapping_source_aux [of "cols_norm rt cs" rt al Map.empty l t]
  by (simp add: build_mapping_def)

text \<open>
  Claim C5, as amended. \<open>build_mapping\<close> is the renaming that \<open>standardize_columns\<close>
  applies. If it renames the column \<open>c\<close> to the canonical name \<open>t\<close>, then the key \<open>v\<close> of \<open>c\<close>
  is a variant of \<open>t\<close>, no column after \<open>c\<close> has the key \<open>v\<close>, and no variant that the
  iteration of the variant set yields before \<open>v\<close> is the key of any column. So of two
  columns with the same key only the later one can be renamed, and of two columns whose
  keys are different variants only the one whose variant is iterated first, wherever the
  two stand in the table.
\<close>

theorem renamed_column_tie_break:
  "build_mapping rt COL_ALIASES cs c = Some t \<longrightarrow>
     (\<exists>variants vs1 v vs2 cs1 cs2.
        (t, variants) \<in> set COL_ALIASES \<and>
        set_iter rt variants = vs1 @ v # vs2 \<and>
        cs = cs1 @ c # cs2 \<and>
        normalize_col rt c = v \<and>
        (\<forall>c'\<in>set cs2. normalize_col rt c' \<noteq> v) \<and>
        (\<forall>v'\<in>set vs1. \<forall>c'\<in>set cs. normalize_col rt c' \<noteq> v'))"
proof
  assume "build_mapping rt COL_ALIASES cs c = Some t"
  from build_mapping_source [OF this] obtain variants where
    v: "(t, variants) \<in> set COL_ALIASES"
    and f: "first_found (cols_norm rt cs) (set_iter rt variants) = Some c" by blast
  from first_found_Some [OF f] obtain vs1 v vs2 where
    s: "set_iter rt variants = vs1 @ v # vs2" and m: "cols_norm rt cs v = Some c"
    and e: "\<forall>v'\<in>set vs1. cols_norm rt cs v' = None" by blast
  from cols_norm_Some [OF m] obtain cs1 cs2 where
    c: "cs = cs1 @ c # cs2" "normalize_col rt c = v" "\<forall>c'\<in>set cs2. normalize_col rt c' \<noteq> v"
    by blast
  from e have "\<forall>v'\<in>set vs1. \<forall>c'\<in>set cs. normalize_col rt c' \<noteq> v'"
    by (simp add: cols_norm_None)
  with v s c show "\<exists>variants vs1 v vs2 cs1 cs2.
        (t, variants) \<in> set COL_ALIASES \<and>
        set_iter rt variants = vs1 @ v # vs2 \<and>
        cs = cs1 @ c # cs2 \<and>
        normalize_col rt c = v \<and>
        (\<forall>c'\<in>set cs2. normalize_col rt c' \<noteq> v) \<and>
        (\<forall>v'\<in>set vs1. \<forall>c'\<in>set cs. normalize_col rt c' \<noteq> v')"
    by blast
qed

lemma three_names_mapping:
  "build_mapping rt0 COL_ALIASES (columns three_names_sheet) (Name (str ''Nombre'')) = Some (str ''nombre'')"
  by (simp add: std_eval three_names_sheet_def)

text \<open>The amended claim C5 at the column "Nombre" of the sheet with three names.\<close>

theorem renamed_column_tie_break_witness:
  "build_mapping rt0 COL_ALIASES (columns three_names_sheet) (Name (str ''Nombre'')) = Some (str ''nombre'') \<and>
   (\<exists>variants vs1 v vs2 cs1 cs2.
        (str ''nombre'', variants) \<in> set COL_ALIASES \<and>
        set_iter rt0 variants = vs1 @ v # vs2 \<and>
        columns three_names_sheet = cs1 @ Name (str ''Nombre'') # cs2 \<and>
        normalize_col rt0 (Name (str ''Nombre'')) = v)"
proof -
  from renamed_column_tie_break [of rt0 "columns three_names_sheet" "Name (str ''Nombre'')" "str ''nombre''"]
    three_names_mapping
  obtain variants vs1 v vs2 cs1 cs2 where
        "(str ''nombre'', variants) \<in> set COL_ALIASES"
        "set_iter rt0 variants = vs1 @ v # vs2"
        "columns three_names_sheet = cs1 @ Name (str ''Nombre'') # cs2"
        "normalize_col rt0 (Name (str ''Nombre'')) = v" by blast
  with three_names_mapping show ?thesis by blast
qed

text \<open>
  Claim C5 as stated fails on the sheet with the headers "Proveedor", "Nombre" and
  "PROVEEDOR", all of them variants of "nombre". When the variants are iterated as written,
  "Nombre" is renamed although "PROVEEDOR" stands after it; when they are iterated in the
  reverse order, "PROVEEDOR" is renamed and "Nombre", which stands after "Proveedor", is
  not.
\<close>

theorem later_column_not_renamed_counterexample:
  "normalize_col rt0 (Name (str ''Proveedor'')) = str ''proveedor'' \<and>
   normalize_col rt0 (Name (str ''Nombre'')) = str ''nombre'' \<and>
   normalize_col rt0 (Name (str ''PROVEEDOR'')) = str ''proveedor'' \<and>
   map_sum id (\<lambda>out. take 3 (columns out)) (standardize_columns rt0 (Some three_names_sheet)) =
     Inr [Name (str ''Proveedor''), Name (str ''nombre''), Name (str ''PROVEEDOR'')] \<and>
   map_sum id (\<lambda>out. take 3 (columns out)) (standardize_columns rt1 (Some three_names_sheet)) =
     Inr [Name (str ''Proveedor''), Name (str ''Nombre''), Name (str ''nombre'')]"
proof -
  have 0: "map_sum id (\<lambda>out. take 3 (columns out)) (standardize_columns rt0 (Some three_names_sheet)) =
     Inr [Name (str ''Proveedor''), Name (str ''nombre''), Name (str ''PROVEEDOR'')]"
    unfolding standardize_columns_def Let_def
    by (simp add: std_eval three_names_sheet_def)
  have 1: "map_sum id (\<lambda>out. take 3 (columns out)) (standardize_columns rt1 (Some three_names_sheet)) =
     Inr [Name (str ''Proveedor''), Name (str ''Nombre''), Name (str ''nombre'')]"
    unfolding standardize_columns_def Let_def
    by (simp add: std_eval rt1_def three_names_sheet_def)
  have "normalize_col rt0 (Name (str ''Proveedor'')) = str ''proveedor''"
    "normalize_col rt0 (Name (str ''Nombre'')) = str ''nombre''"
    "normalize_col rt0 (Name (str ''PROVEEDOR'')) = str ''proveedor''"
    by (simp_all add: col_eval)
  with 0 1 show ?thesis by simp
qed
section \<open>Applying the aliaser twice\<close>

text \<open>
  Claim C4 fails when the iteration of the variants of "nombre" yields "proveedor" before
  "nombre", as it does when the sets are iterated in reverse. From the sheet with the
  headers "Proveedor" and "PROVEEDOR" the first application renames the later column and
  keeps "Proveedor"; the second application finds the key "proveedor" before the key
  "nombre", renames "Proveedor" as well, and the two columns named "nombre" make the
  clean-up loop raise \<open>AttributeError\<close>.
\<close>

theorem second_application_raises:
  "set_iter rt1 [str ''nombre'', str ''proveedor'', str ''razon social'', str ''razon social / nombre''] =
     [str ''razon social / nombre'', str ''razon social'', str ''proveedor'', str ''nombre''] \<and>
   standardize_columns rt1 (Some proveedor_sheet) = Inr proveedor_once \<and>
   standardize_columns rt1 (Some proveedor_once) = Inl AttributeError"
proof -
  have o: "set_iter rt1 [str ''nombre'', str ''proveedor'', str ''razon social'', str ''razon social / nombre''] =
     [str ''razon social / nombre'', str ''razon social'', str ''proveedor'', str ''nombre'']"
    by (simp add: rt1_def rt0_def declaration_order_def)
  have 1: "standardize_columns rt1 (Some proveedor_sheet) = Inr proveedor_once"
    unfolding standardize_columns_def Let_def
    by (simp add: std_eval rt1_def proveedor_sheet_def proveedor_once_def replicate_numeral)
  have 2: "standardize_columns rt1 (Some proveedor_once) = Inl AttributeError"
    unfolding standardize_columns_def Let_def
    by (simp add: std_eval rt1_def proveedor_once_def)
  from o 1 2 show ?thesis by simp
qed
section \<open>What holds of the standardised table\<close>

lemma dropWhile_id: "xs = [] \<or> \<not> P (hd xs) \<Longrightarrow> dropWhile P xs = xs"
  by (cases xs) auto

lemma strip_ends:
  "strip s = [] \<or> (\<not> isspace (hd (strip s)) \<and> \<not> isspace (last (strip s)))"
proof (cases "strip s = []")
  case True
  then show ?thesis by simp
next
  case False
  define t where "t = dropWhile isspace s"
  define u where "u = dropWhile isspace (rev t)"
  have s: "strip s = rev u" by (simp add: strip_def t_def u_def)
  with False have u: "u \<noteq> []" by simp
  then have 1: "\<not> isspace (hd u)" unfolding u_def by (rule hd_dropWhile)
  have "rev t = takeWhile isspace (rev t) @ u" by (simp add: u_def)
  then have "t = rev u @ rev (takeWhile isspace (rev t))"
    by (metis rev_append rev_rev_ident)
  with u have "hd t = hd (rev u)" and "t \<noteq> []" by (metis hd_append2 rev_is_Nil_conv, auto)
  moreover from \<open>t \<noteq> []\<close> have "\<not> isspace (hd t)" unfolding t_def by (rule hd_dropWhile)
  ultimately have 2: "\<not> isspace (hd (rev u))" by simp
  from u have "last (rev u) = hd u" by (simp add: last_rev)
  with 1 2 s show ?thesis by simp
qed

lemma strip_strip: "strip (strip s) = strip s"
proof (cases "strip s = []")
  case True
  have "strip [] = []" by (simp add: strip_def)
  with True show ?thesis by simp
next
  case False
  with strip_ends [of s] have h: "\<not> isspace (hd (strip s))" and l: "\<not> isspace (last (strip s))"
    by simp_all
  from h have 1: "dropWhile isspace (strip s) = strip s" by (simp add: dropWhile_id)
  from False l have "\<not> isspace (hd (rev (strip s)))" by (simp add: hd_rev)
  then have 2: "dropWhile isspace (rev (strip s)) = rev (strip s)" by (simp add: dropWhile_id)
  show ?thesis
    unfolding strip_def [of "strip s"] 1 2 by simp
qed

lemma clean_cell_clean_cell: "clean_cell (clean_cell v) = clean_cell v"
  by (simp add: clean_cell_def strip_strip)

lemma canonical_keys:
  "t \<in> fst ` set COL_ALIASES \<Longrightarrow> normalize_col rt (Name t) = t"
  by (auto simp: COL_ALIASES_def col_eval)

lemma canonical_names: "fst ` set COL_ALIASES = set (DISPLAY_ORDER @ [str ''productos''])"
  by (simp add: COL_ALIASES_def DISPLAY_ORDER_def insert_commute)

lemma canonical_own_variant:
  "(t', vs) \<in> set COL_ALIASES \<Longrightarrow> t \<in> fst ` set COL_ALIASES \<Longrightarrow> t \<in> set vs \<Longrightarrow> t' = t"
  by (simp add: COL_ALIASES_def) (elim disjE; simp)

lemma fold_ensure_column_all_present:
  "\<forall>n\<in>set ns. Name n \<in> set (columns df) \<Longrightarrow> fold ensure_column ns df = df"
  by (induction ns arbitrary: df) (simp_all add: ensure_column_def)

lemma cols_norm_last:
  "\<forall>c'\<in>set cs2. normalize_col rt c' \<noteq> normalize_col rt c \<Longrightarrow>
   cols_norm rt (cs1 @ c # cs2) (normalize_col rt c) = Some c"
proof (induction cs2 rule: rev_induct)
  case Nil
  show ?case using cols_norm_snoc [of rt cs1 c] by simp
next
  case (snoc x xs)
  then have "cols_norm rt (cs1 @ c # xs) (normalize_col rt c) = Some c" by simp
  moreover have "cols_norm rt (cs1 @ c # xs @ [x]) =
                 (cols_norm rt (cs1 @ c # xs))(normalize_col rt x \<mapsto> x)"
    using cols_norm_snoc [of rt "cs1 @ c # xs" x] by simp
  moreover from snoc.prems have "normalize_col rt x \<noteq> normalize_col rt c" by simp
  ultimately show ?case by simp
qed

lemma build_mapping_last_writer_aux:
  fixes al :: "(ustr \<times> ustr list) list" and m :: "ustr \<rightharpoonup> label" and m0 :: "label \<rightharpoonup> ustr"
  assumes "\<forall>(t', vs')\<in>set al. first_found m (set_iter rt vs') = Some f \<longrightarrow> t' = t"
  shows "fold (\<lambda>(target, variants) mapping.
           case first_found m (set_iter rt variants) of
             None \<Rightarrow> mapping
           | Some found \<Rightarrow> mapping(found \<mapsto> target)) al m0 f =
   (if \<exists>(t', vs')\<in>set al. first_found m (set_iter rt vs') = Some f then Some t else m0 f)"
proof -
  define step where "step = (\<lambda>(target :: ustr, variants) (mapping :: label \<rightharpoonup> ustr).
           case first_found m (set_iter rt variants) of
             None \<Rightarrow> mapping
           | Some found \<Rightarrow> mapping(found \<mapsto> target))"
  have s1: "step (target, variants) mp = mp"
    if "first_found m (set_iter rt variants) = None" for target variants mp
    using that by (simp add: step_def)
  have s2: "step (target, variants) mp = mp(found \<mapsto> target)"
    if "first_found m (set_iter rt variants) = Some found" for target variants mp found
    using that by (simp add: step_def)
  from assms have "fold step al m0 f =
    (if \<exists>(t', vs')\<in>set al. first_found m (set_iter rt vs') = Some f then Some t else m0 f)"
  proof (induction al arbitrary: m0)
    case Nil
    show ?case by simp
  next
    case (Cons a al)
    obtain target variants where a: "a = (target, variants)" by (cases a)
    from Cons.prems have rest:
      "\<forall>(t', vs')\<in>set al. first_found m (set_iter rt vs') = Some f \<longrightarrow> t' = t"
      by simp
    have f: "fold step (a # al) m0 f = fold step al (step a m0) f" by simp
    note ih = Cons.IH [OF rest, of "step a m0"]
    show ?case
    proof (cases "first_found m (set_iter rt variants) = Some f")
      case True
      with a Cons.prems have "target = t" by simp
      with True a have "step a m0 f = Some t" by (simp add: s2)
      with ih have "fold step al (step a m0) f = Some t" by simp
      moreover from True a
      have "\<exists>(t', vs')\<in>set (a # al). first_found m (set_iter rt vs') = Some f" by simp
      ultimately show ?thesis unfolding f by simp
    next
      case False
      have "step a m0 f = m0 f"
      proof (cases "first_found m (set_iter rt variants)")
        case None
        with a show ?thesis by (simp add: s1)
      next
        case (Some found)
        with False have "found \<noteq> f" by simp
        with Some a show ?thesis by (simp add: s2)
      qed
      moreover from False a
      have "(\<exists>(t', vs')\<in>set (a # al). first_found m (set_iter rt vs') = Some f) \<longleftrightarrow>
            (\<exists>(t', vs')\<in>set al. first_found m (set_iter rt vs') = Some f)" by simp
      ultimately show ?thesis unfolding f using ih by simp
    qed
  qed
  then show ?thesis unfolding step_def .
qed

lemma build_mapping_last_writer:
  assumes "(t, vs) \<in> set al" "first_found (cols_norm rt cs) (set_iter rt vs) = Some f"
    and "\<forall>(t', vs')\<in>set al. first_found (cols_norm rt cs) (set_iter rt vs') = Some f \<longrightarrow> t' = t"
  shows "build_mapping rt al cs f = Some t"
proof -
  from assms(1,2) have "\<exists>(t', vs')\<in>set al. first_found (cols_norm rt cs) (set_iter rt vs') = Some f"
    by auto
  with build_mapping_last_writer_aux [OF assms(3), of Map.empty] show ?thesis
    by (simp add: build_mapping_def)
qed

lemma first_found_head: "m v = Some c \<Longrightarrow> first_found m (v # vs) = Some c"
  by simp

lemma fold_ensure_column_labels:
  "distinct ns \<Longrightarrow>
   columns (fold ensure_column ns df) =
     columns df @ map Name (filter (\<lambda>n. Name n \<notin> set (columns df)) ns)"
  using fold_ensure_column_exact [of ns df] by (simp add: columns_def comp_def)

lemma rename_columns:
  "columns (rename m d) = map (\<lambda>l. case m l of None \<Rightarrow> l | Some t \<Rightarrow> Name t) (columns d)"
  by (simp add: columns_def rename_def comp_def case_prod_beta)

lemma completed_columns:
  assumes "iterates_sets rt"
  shows "columns (completed rt d) =
           map (\<lambda>l. case build_mapping rt COL_ALIASES (columns d) l of None \<Rightarrow> l | Some t \<Rightarrow> Name t)
             (columns d) @
           map Name (filter (\<lambda>n. Name n \<notin> set (map (\<lambda>l. case build_mapping rt COL_ALIASES (columns d) l of
                                                          None \<Rightarrow> l | Some t \<Rightarrow> Name t) (columns d)))
                       (set_iter rt (DISPLAY_ORDER @ [str ''productos''])))"
proof -
  from assms have d: "distinct (set_iter rt (DISPLAY_ORDER @ [str ''productos'']))"
    by (simp add: iterates_sets_def)
  show ?thesis
    unfolding completed_def fold_ensure_column_labels [OF d] rename_columns ..
qed

lemma standardize_columns_labels:
  assumes "\<not> empty d" "standardize_columns rt (Some d) = Inr out"
  shows "columns out = columns (completed rt d)" "distinct (columns out)"
    "nrows out = nrows d"
    "cols out = map (\<lambda>(l, vs). (l, map clean_cell vs)) (cols (completed rt d))"
proof -
  from assms(2) have "distinct (columns (completed rt d))"
    and o: "out = (completed rt d)\<lparr>cols := map (\<lambda>(l, vs). (l, map clean_cell vs)) (cols (completed rt d))\<rparr>"
    unfolding standardize_columns_nonempty [OF assms(1)] by (auto split: if_splits)
  moreover from o show c: "columns out = columns (completed rt d)"
    by (simp add: columns_def comp_def case_prod_beta)
  ultimately show "distinct (columns out)" by simp
  from o show "nrows out = nrows d" by (simp add: completed_nrows)
  from o show "cols out = map (\<lambda>(l, vs). (l, map clean_cell vs)) (cols (completed rt d))" by simp
qed

lemma canonical_first_found:
  assumes "canonical_first rt" "(t, vs) \<in> set COL_ALIASES" "m t = Some c"
  shows "first_found m (set_iter rt vs) = Some c"
proof -
  from assms(1,2) obtain rest where "set_iter rt vs = t # rest"
    by (auto simp: canonical_first_def list_all_iff)
  with assms(3) show ?thesis by simp
qed

text \<open>
  In the standardised table the last column whose key is a canonical name is the column of
  that name, when the canonical names are iterated first.
\<close>

lemma standardized_key_of_canonical:
  assumes it: "iterates_sets rt" and cf: "canonical_first rt"
    and ne: "\<not> empty d" and s: "standardize_columns rt (Some d) = Inr out"
    and t: "t \<in> fst ` set COL_ALIASES"
  shows "cols_norm rt (columns out) t = Some (Name t)"
proof -
  define mp where "mp = build_mapping rt COL_ALIASES (columns d)"
  define ren where "ren = (\<lambda>l. case mp l of None \<Rightarrow> l | Some t \<Rightarrow> Name t)"
  define added where "added = map Name (filter (\<lambda>n. Name n \<notin> set (map ren (columns d)))
                       (set_iter rt (DISPLAY_ORDER @ [str ''productos''])))"
  from standardize_columns_labels [OF ne s] completed_columns [OF it, of d]
  have co: "columns out = map ren (columns d) @ added" and dist: "distinct (columns out)"
    by (simp_all add: ren_def mp_def added_def)
  have key: "normalize_col rt (Name t) = t" using t by (rule canonical_keys)
  have ren_key: "c' = Name t" if "c' = ren l" "mp l \<noteq> None" "normalize_col rt c' = t" for c' l
  proof -
    from that(2) obtain t3 where m: "mp l = Some t3" by auto
    then have "t3 \<in> fst ` set COL_ALIASES" unfolding mp_def by (rule build_mapping_range)
    then have "normalize_col rt (Name t3) = t3" by (rule canonical_keys)
    with that(1,3) m show ?thesis by (simp add: ren_def)
  qed
  have added_key: "c' = Name t" if "c' \<in> set added" "normalize_col rt c' = t" for c'
  proof -
    from that(1) obtain n where n: "c' = Name n" "n \<in> set (set_iter rt (DISPLAY_ORDER @ [str ''productos'']))"
      by (auto simp: added_def)
    with it have "n \<in> fst ` set COL_ALIASES" by (simp add: iterates_sets_def canonical_names)
    then have "normalize_col rt (Name n) = n" by (rule canonical_keys)
    with n that(2) show ?thesis by simp
  qed
  have present: "Name t \<in> set (columns out)"
  proof (cases "Name t \<in> set (map ren (columns d))")
    case True
    then show ?thesis by (simp add: co)
  next
    case False
    from t it have "t \<in> set (set_iter rt (DISPLAY_ORDER @ [str ''productos'']))"
      by (simp add: iterates_sets_def canonical_names)
    with False have "Name t \<in> set added" by (simp add: added_def)
    then show ?thesis by (simp add: co)
  qed
  show ?thesis
  proof (cases "cols_norm rt (columns d) t")
    case None
    then have nokey: "\<forall>c\<in>set (columns d). normalize_col rt c \<noteq> t" by (simp add: cols_norm_None)
    from present obtain xs ys where sp: "columns out = xs @ Name t # ys"
      by (auto dest: split_list)
    with dist have ny: "Name t \<notin> set ys" by auto
    have "\<forall>c'\<in>set ys. normalize_col rt c' \<noteq> normalize_col rt (Name t)"
    proof
      fix c' assume c': "c' \<in> set ys"
      show "normalize_col rt c' \<noteq> normalize_col rt (Name t)"
      proof
        assume "normalize_col rt c' = normalize_col rt (Name t)"
        with key have k: "normalize_col rt c' = t" by simp
        from c' sp co have "c' \<in> set (map ren (columns d)) \<or> c' \<in> set added"
          by (metis Un_iff set_append list.set_intros(2))
        then have "c' = Name t"
        proof
          assume "c' \<in> set (map ren (columns d))"
          then obtain l where l: "l \<in> set (columns d)" "c' = ren l" by auto
          show ?thesis
          proof (cases "mp l")
            case None
            with l have "c' = l" by (simp add: ren_def)
            with l nokey k show ?thesis by auto
          next
            case (Some t3)
            with l k ren_key [of c' l] show ?thesis by simp
          qed
        next
          assume "c' \<in> set added"
          then show ?thesis using k by (rule added_key)
        qed
        with c' ny show False by simp
      qed
    qed
    from cols_norm_last [OF this, of xs] sp key show ?thesis by simp
  next
    case (Some f)
    from cols_norm_Some [OF Some] obtain cs1 cs2 where
      d: "columns d = cs1 @ f # cs2" and kf: "normalize_col rt f = t"
      and after: "\<forall>c'\<in>set cs2. normalize_col rt c' \<noteq> t" by blast
    from t obtain vs where tv: "(t, vs) \<in> set COL_ALIASES" by auto
    from canonical_first_found [of rt t vs "cols_norm rt (columns d)" f] cf tv Some
    have ff: "first_found (cols_norm rt (columns d)) (set_iter rt vs) = Some f" by simp
    have "\<forall>(t', vs')\<in>set COL_ALIASES.
            first_found (cols_norm rt (columns d)) (set_iter rt vs') = Some f \<longrightarrow> t' = t"
    proof (intro ballI, clarify)
      fix t' vs' assume e: "(t', vs') \<in> set COL_ALIASES"
        and g: "first_found (cols_norm rt (columns d)) (set_iter rt vs') = Some f"
      from first_found_Some [OF g] obtain vs1 v vs2 where
        v: "set_iter rt vs' = vs1 @ v # vs2" "cols_norm rt (columns d) v = Some f" by blast
      from cols_norm_Some [OF v(2)] have "normalize_col rt f = v" by blast
      with kf have "v = t" by simp
      with v(1) have "t \<in> set (set_iter rt vs')" by simp
      with it have "t \<in> set vs'" by (simp add: iterates_sets_def)
      with e t show "t' = t" by (rule canonical_own_variant)
    qed
    from build_mapping_last_writer [OF tv ff this] have "mp f = Some t" by (simp add: mp_def)
    then have rf: "ren f = Name t" by (simp add: ren_def)
    from co d rf have sp: "columns out = map ren cs1 @ Name t # (map ren cs2 @ added)" by simp
    with dist have ny: "Name t \<notin> set (map ren cs2 @ added)" by auto
    have "\<forall>c'\<in>set (map ren cs2 @ added). normalize_col rt c' \<noteq> normalize_col rt (Name t)"
    proof
      fix c' assume c': "c' \<in> set (map ren cs2 @ added)"
      show "normalize_col rt c' \<noteq> normalize_col rt (Name t)"
      proof
        assume "normalize_col rt c' = normalize_col rt (Name t)"
        with key have k: "normalize_col rt c' = t" by simp
        from c' have "c' \<in> set (map ren cs2) \<or> c' \<in> set added" by simp
        then have "c' = Name t"
        proof
          assume "c' \<in> set (map ren cs2)"
          then obtain l where l: "l \<in> set cs2" "c' = ren l" by auto
          show ?thesis
          proof (cases "mp l")
            case None
            with l have "c' = l" by (simp add: ren_def)
            with l after k show ?thesis by auto
          next
            case (Some t3)
            with l k ren_key [of c' l] show ?thesis by simp
          qed
        next
          assume "c' \<in> set added"
          then show ?thesis using k by (rule added_key)
        qed
        with c' ny show False by simp
      qed
    qed
    from cols_norm_last [OF this, of "map ren cs1"] sp key show ?thesis by simp
  qed
qed

lemma standardize_columns_of_empty:
  "df = None \<or> (\<exists>d. df = Some d \<and> empty d) \<Longrightarrow>
   standardize_columns rt df = Inr (empty_frame (DISPLAY_ORDER @ [str ''productos'']))"
  by (auto simp: standardize_columns_def)

lemma empty_canonical_frame: "empty (empty_frame (DISPLAY_ORDER @ [str ''productos'']))"
  by (simp add: empty_def empty_frame_def)

lemma standardized_has_canonical:
  assumes it: "iterates_sets rt" and ne: "\<not> empty d"
    and s: "standardize_columns rt (Some d) = Inr out"
    and n: "n \<in> set (DISPLAY_ORDER @ [str ''productos''])"
  shows "Name n \<in> set (columns out)"
proof -
  from it n have "n \<in> set (set_iter rt (DISPLAY_ORDER @ [str ''productos'']))"
    by (simp add: iterates_sets_def)
  then have "Name n \<in> set (columns (completed rt d))"
    unfolding completed_def by (rule fold_ensure_column_present)
  with standardize_columns_labels(1) [OF ne s] show ?thesis by simp
qed

lemma standardized_cells_clean:
  assumes ne: "\<not> empty d" and s: "standardize_columns rt (Some d) = Inr out"
  shows "map (\<lambda>(l, vs). (l, map clean_cell vs)) (cols out) = cols out"
  unfolding standardize_columns_labels(4) [OF ne s]
  by (simp add: comp_def case_prod_beta clean_cell_clean_cell)

text \<open>
  What claim C4 asks for does hold when the iteration of every variant set yields the
  canonical name first: the second application then finds every canonical column under its
  own name, renames nothing, adds nothing and cleans cells that are clean already.
\<close>

lemma standardize_columns_twice:
  assumes it: "iterates_sets rt" and cf: "canonical_first rt"
    and s: "standardize_columns rt df = Inr out"
  shows "standardize_columns rt (Some out) = Inr out"
proof (cases "df = None \<or> (\<exists>d. df = Some d \<and> empty d)")
  case True
  from standardize_columns_of_empty [OF True, of rt] s
  have "out = empty_frame (DISPLAY_ORDER @ [str ''productos''])" by simp
  with empty_canonical_frame show ?thesis
    using standardize_columns_of_empty [of "Some out" rt] by auto
next
  case False
  then obtain d where d: "df = Some d" and ne: "\<not> empty d" by auto
  from s d have sd: "standardize_columns rt (Some d) = Inr out" by simp
  define ns where "ns = set_iter rt (DISPLAY_ORDER @ [str ''productos''])"
  define mp2 where "mp2 = build_mapping rt COL_ALIASES (columns out)"
  have found: "first_found (cols_norm rt (columns out)) (set_iter rt vs) = Some (Name t)"
    if "(t, vs) \<in> set COL_ALIASES" for t vs
  proof -
    from that have "t \<in> fst ` set COL_ALIASES" by force
    from standardized_key_of_canonical [OF it cf ne sd this]
    have "cols_norm rt (columns out) t = Some (Name t)" .
    with canonical_first_found [of rt t vs "cols_norm rt (columns out)" "Name t"] cf that
    show ?thesis by simp
  qed
  have same: "l = Name t'" if "mp2 l = Some t'" for l t'
  proof -
    from that build_mapping_source [of rt COL_ALIASES "columns out" l t'] obtain vs where
      "(t', vs) \<in> set COL_ALIASES"
      "first_found (cols_norm rt (columns out)) (set_iter rt vs) = Some l"
      by (auto simp: mp2_def)
    with found [of t' vs] show ?thesis by simp
  qed
  have "map (\<lambda>(l, vs). (case mp2 l of None \<Rightarrow> l | Some t \<Rightarrow> Name t, vs)) (cols out) = cols out"
    by (rule map_idI) (auto split: option.splits dest: same)
  then have r: "rename mp2 out = out" by (simp add: rename_def)
  have "\<forall>n\<in>set ns. Name n \<in> set (columns out)"
    using standardized_has_canonical [OF it ne sd] it by (simp add: ns_def iterates_sets_def)
  then have "fold ensure_column ns out = out" by (rule fold_ensure_column_all_present)
  with r have c: "completed rt out = out" by (simp add: completed_def mp2_def ns_def)
  have "Name (str ''nombre'') \<in> set (columns out)"
    by (rule standardized_has_canonical [OF it ne sd]) (simp add: DISPLAY_ORDER_def)
  then have "cols out \<noteq> []" by (auto simp: columns_def)
  with ne standardize_columns_labels(3) [OF ne sd] have ne2: "\<not> empty out"
    by (simp add: empty_def)
  from standardize_columns_labels(2) [OF ne sd] standardized_cells_clean [OF ne sd]
  show ?thesis
    unfolding standardize_columns_nonempty [OF ne2] c by simp
qed

text \<open>
  What claim C3 asks for does hold whenever \<open>standardize_columns\<close> returns: the nine
  canonical columns are there, every cell is a trimmed string, and a null or empty input
  gives the empty frame of the canonical columns.
\<close>

lemma standardize_columns_guarantee:
  assumes it: "iterates_sets rt" and s: "standardize_columns rt df = Inr out"
  shows "(\<forall>n\<in>set (DISPLAY_ORDER @ [str ''productos'']). Name n \<in> set (columns out)) \<and>
         (\<forall>(l, vs)\<in>set (cols out). \<forall>v\<in>set vs. \<exists>x. v = PStr x \<and> strip x = x) \<and>
         (df = None \<or> (\<exists>d. df = Some d \<and> empty d) \<longrightarrow>
            out = empty_frame (DISPLAY_ORDER @ [str ''productos'']))"
proof (cases "df = None \<or> (\<exists>d. df = Some d \<and> empty d)")
  case True
  from standardize_columns_of_empty [OF True, of rt] s
  have "out = empty_frame (DISPLAY_ORDER @ [str ''productos''])" by simp
  then show ?thesis by (auto simp: empty_frame_def columns_def)
next
  case False
  then obtain d where d: "df = Some d" and ne: "\<not> empty d" by auto
  from s d have sd: "standardize_columns rt (Some d) = Inr out" by simp
  have 1: "\<forall>n\<in>set (DISPLAY_ORDER @ [str ''productos'']). Name n \<in> set (columns out)"
    using standardized_has_canonical [OF it ne sd] by blast
  have 2: "\<forall>(l, vs)\<in>set (cols out). \<forall>v\<in>set vs. \<exists>x. v = PStr x \<and> strip x = x"
  proof (intro ballI, clarify)
    fix l vs v assume "(l, vs) \<in> set (cols out)" "v \<in> set vs"
    then obtain ws w where "w \<in> set ws" "v = clean_cell w"
      unfolding standardize_columns_labels(4) [OF ne sd] by auto
    then show "\<exists>x. v = PStr x \<and> strip x = x"
      by (auto simp: clean_cell_def strip_strip)
  qed
  from 1 2 False show ?thesis by blast
qed

lemma disjoint_entries:
  "distinct (concat (map snd al)) \<Longrightarrow> (t, vs) \<in> set al \<Longrightarrow> (t', vs') \<in> set al \<Longrightarrow>
   v \<in> set vs \<Longrightarrow> v \<in> set vs' \<Longrightarrow> t = t'"
proof (induction al)
  case Nil
  then show ?case by simp
next
  case (Cons a al)
  from Cons.prems(1) have d: "distinct (concat (map snd al))"
    and x: "set (snd a) \<inter> set (concat (map snd al)) = {}" by simp_all
  have out: "False" if "(s, ws) \<in> set al" "v \<in> set ws" "v \<in> set (snd a)" for s ws
  proof -
    from that(1,2) have "v \<in> set (concat (map snd al))" by force
    with that(3) x show False by auto
  qed
  from Cons.prems(2,3) consider "(t, vs) = a" "(t', vs') = a" | "(t, vs) = a" "(t', vs') \<in> set al"
    | "(t, vs) \<in> set al" "(t', vs') = a" | "(t, vs) \<in> set al" "(t', vs') \<in> set al" by auto
  then show ?case
  proof cases
    case 1
    then show ?thesis by (metis fst_conv)
  next
    case 2
    with out [of t' vs'] Cons.prems(4,5) show ?thesis by (metis snd_conv)
  next
    case 3
    with out [of t vs] Cons.prems(4,5) show ?thesis by (metis snd_conv)
  next
    case 4
    with Cons.IH [OF d] Cons.prems(4,5) show ?thesis by blast
  qed
qed

lemma variants_distinct: "distinct (concat (map snd COL_ALIASES))"
  by (simp add: COL_ALIASES_def)

lemma variants_disjoint:
  "(t, vs) \<in> set COL_ALIASES \<Longrightarrow> (t', vs') \<in> set COL_ALIASES \<Longrightarrow> v \<in> set vs \<Longrightarrow> v \<in> set vs' \<Longrightarrow>
   t = t'"
  using disjoint_entries [OF variants_distinct] by blast

lemma first_found_None_iff: "first_found m vs = None \<longleftrightarrow> (\<forall>v\<in>set vs. m v = None)"
  by (induction vs) auto

lemma first_found_in: "first_found m vs = Some c \<Longrightarrow> \<exists>v\<in>set vs. m v = Some c"
  by (induction vs) (auto split: if_splits)

text \<open>
  What claim C1 asks for does hold of a column whose key is a variant, when no other column
  of the sheet has a variant of the same target for its key: the column is renamed to the
  target. Every variant of the dictionary but the two written with a slash is its own key;
  so is, on the concrete runtime, the header " Correo Electr\<open>U+00D3\<close>nico" the key
  "correo electronico".
\<close>

lemma sole_variant_renamed:
  assumes it: "iterates_sets rt" and ali: "(c, vs) \<in> set COL_ALIASES"
    and col: "l \<in> set (columns d)" and key: "normalize_col rt l \<in> set vs"
    and sole: "\<forall>l'\<in>set (columns d). normalize_col rt l' \<in> set vs \<longrightarrow> l' = l"
  shows "build_mapping rt COL_ALIASES (columns d) l = Some c"
proof -
  define m where "m = cols_norm rt (columns d)"
  from it have sv: "set (set_iter rt xs) = set xs" for xs by (simp add: iterates_sets_def)
  have only: "f = l" if "m v = Some f" "v \<in> set vs" for f v
  proof -
    from cols_norm_Some [of rt "columns d" v f] that(1)
    have "f \<in> set (columns d)" "normalize_col rt f = v" by (auto simp: m_def)
    with that(2) sole show ?thesis by auto
  qed
  from col have "m (normalize_col rt l) \<noteq> None"
    unfolding m_def by (auto simp: cols_norm_None)
  with key sv have "first_found m (set_iter rt vs) \<noteq> None"
    by (auto simp: first_found_None_iff)
  then obtain f where f: "first_found m (set_iter rt vs) = Some f" by auto
  from first_found_in [OF f] sv only have "f = l" by auto
  with f have ff: "first_found (cols_norm rt (columns d)) (set_iter rt vs) = Some l"
    by (simp add: m_def)
  have "\<forall>(t', vs')\<in>set COL_ALIASES.
          first_found (cols_norm rt (columns d)) (set_iter rt vs') = Some l \<longrightarrow> t' = c"
  proof (intro ballI, clarify)
    fix t' vs' assume e: "(t', vs') \<in> set COL_ALIASES"
      and g: "first_found (cols_norm rt (columns d)) (set_iter rt vs') = Some l"
    from first_found_in [OF g] sv obtain v' where v': "v' \<in> set vs'" "cols_norm rt (columns d) v' = Some l"
      by auto
    from cols_norm_Some [OF v'(2)] have "normalize_col rt l = v'" by blast
    with key v'(1) variants_disjoint [OF e ali] show "t' = c" by simp
  qed
  from build_mapping_last_writer [OF ali ff this] show ?thesis .
qed

lemma variant_keys:
  "list_all (\<lambda>v. normalize_col rt (Name v) = v)
     (filter (\<lambda>v. v \<noteq> str ''telefono/whatsapp'' \<and> v \<noteq> str ''provincia/estado'')
        (concat (map snd COL_ALIASES)))"
  by (simp add: COL_ALIASES_def col_eval)

lemma accented_header_key:
  "normalize_col rt0
     (Name [0x20, 0x43, 0x6F, 0x72, 0x72, 0x65, 0x6F, 0x20, 0x45, 0x6C, 0x65, 0x63, 0x74, 0x72,
            0xD3, 0x6E, 0x69, 0x63, 0x6F]) = str ''correo electronico''"
  by (simp add: col_eval rt0_def latin1_lower_def)

end
